theory Spec2Isabelle
  imports Main
begin

section \<open>Bitmaps\<close>

text \<open>
  The capture code of \<^verbatim>\<open>src/app.py\<close> handles bitmaps through four operations of the
  imaging library: \<^verbatim>\<open>Image.new\<close>, \<^verbatim>\<open>Image.open\<close>, \<^verbatim>\<open>Image.crop\<close> and
  \<^verbatim>\<open>Image.paste\<close>, and reads \<^verbatim>\<open>img.width\<close> and \<^verbatim>\<open>img.height\<close>. A bitmap is its
  two dimensions and its rows of pixels, top row first. A pixel is a colour value, 0 being
  the black that \<^verbatim>\<open>Image.new\<close> fills a fresh bitmap with; the colour mode is not modelled.
\<close>

type_synonym pixel = nat

record image =
  im_width :: nat
  im_height :: nat
  im_rows :: "pixel list list"

text \<open>The pixel at column \<open>x\<close> of row \<open>y\<close>; black outside the bitmap.\<close>

definition pixel_at :: "image \<Rightarrow> int \<Rightarrow> int \<Rightarrow> pixel" where
  "pixel_at img x y =
     (if 0 \<le> x \<and> x < int (im_width img) \<and> 0 \<le> y \<and> y < int (im_height img)
      then im_rows img ! nat y ! nat x else 0)"

text \<open>The bitmap of the given size whose pixels are given by a function of the position.\<close>

definition raster :: "nat \<Rightarrow> nat \<Rightarrow> (int \<Rightarrow> int \<Rightarrow> pixel) \<Rightarrow> image" where
  "raster w h f =
     \<lparr>im_width = w, im_height = h,
      im_rows = map (\<lambda>y. map (\<lambda>x. f (int x) (int y)) [0..<w]) [0..<h]\<rparr>"

datatype error =
  WebDriverException | FileNotFoundError | ZeroDivisionError | ValueError | TypeError

text \<open>
  \<^verbatim>\<open>Image.new('RGB', (w, h))\<close>: a black bitmap; the library raises ValueError on a
  negative size.
\<close>

definition Image_new :: "int \<Rightarrow> int \<Rightarrow> error + image" where
  "Image_new w h =
     (if w < 0 \<or> h < 0 then Inl ValueError
      else Inr (raster (nat w) (nat h) (\<lambda>x y. 0)))"

text \<open>
  \<^verbatim>\<open>img.crop((left, upper, right, lower))\<close>: the result has size
  \<open>(right - left, lower - upper)\<close>, and the part of the box outside the source is black.
  Every box the capture code builds has \<open>left \<le> right\<close> and \<open>upper \<le> lower\<close>.
\<close>

definition crop :: "image \<Rightarrow> int \<times> int \<times> int \<times> int \<Rightarrow> image" where
  "crop img box =
     (case box of (left, upper, right, lower) \<Rightarrow>
        raster (nat (right - left)) (nat (lower - upper))
          (\<lambda>x y. pixel_at img (x + left) (y + upper)))"

text \<open>
  \<^verbatim>\<open>dst.paste(src, (x0, y0))\<close>: the source is copied with its top left corner at
  \<open>(x0, y0)\<close>, clipped to the destination, whose size does not change.
\<close>

definition paste :: "image \<Rightarrow> image \<Rightarrow> int \<times> int \<Rightarrow> image" where
  "paste dst src pos =
     (case pos of (x0, y0) \<Rightarrow>
        raster (im_width dst) (im_height dst)
          (\<lambda>x y. if x0 \<le> x \<and> x < x0 + int (im_width src) \<and> y0 \<le> y \<and> y < y0 + int (im_height src)
                 then pixel_at src (x - x0) (y - y0) else pixel_at dst x y))"

section \<open>File names\<close>

text \<open>\<^verbatim>\<open>os.path.join(a, b)\<close> on a POSIX system, for two components.\<close>

definition os_path_join :: "string \<Rightarrow> string \<Rightarrow> string" where
  "os_path_join a b =
     (if b \<noteq> [] \<and> hd b = CHR ''/'' then b
      else if a = [] \<or> last a = CHR ''/'' then a @ b
      else a @ ''/'' @ b)"

text \<open>The decimal digits of a natural number, as an f-string renders the loop index.\<close>

definition digits :: string where
  "digits = ''0123456789''"

fun str_nat :: "nat \<Rightarrow> string" where
  "str_nat n =
     (if n < 10 then [digits ! n]
      else str_nat (n div 10) @ [digits ! (n mod 10)])"

declare str_nat.simps [simp del]

definition test_path :: "string \<Rightarrow> string" where
  "test_path output_dir = os_path_join output_dir ''test_screenshot.png''"

definition temp_path :: "string \<Rightarrow> string \<Rightarrow> nat \<Rightarrow> string" where
  "temp_path output_dir crf_name i =
     os_path_join output_dir (''temp_'' @ crf_name @ ''_'' @ str_nat i @ ''.png'')"

definition final_path :: "string \<Rightarrow> string \<Rightarrow> string" where
  "final_path output_dir crf_name =
     os_path_join output_dir (''temp_'' @ crf_name @ ''_final.png'')"

section \<open>The browser, the file system and the capturer\<close>

text \<open>
  The browser is driven through three calls. What they answer is a parameter of the
  model:
  \<^item> \<open>page_dimensions\<close> is what the script of \<^verbatim>\<open>get_page_dimensions\<close> returns, the
    width and the height of the document, or \<open>None\<close> when the call raises;
  \<^item> \<open>scroll_raises y\<close> tells whether \<^verbatim>\<open>window.scrollTo(0, y)\<close> raises;
  \<^item> \<open>screenshot y path\<close> is what \<^verbatim>\<open>save_screenshot(path)\<close> does when the last
    scroll request was \<open>y\<close>: it writes a bitmap, or it returns without writing the file
    (the driver swallows an I/O error and returns False), or it raises.
\<close>

datatype shot_result = Written image | NotWritten | ShotRaises

record driver =
  page_dimensions :: "(int \<times> int) option"
  scroll_raises :: "int \<Rightarrow> bool"
  screenshot :: "int \<Rightarrow> string \<Rightarrow> shot_result"

text \<open>The calls made to the browser are logged, in order.\<close>

datatype event = ScrollTo int | SaveScreenshot string

text \<open>
  The mutable state: the files on disk, the scroll position last requested from the
  browser, the field \<^verbatim>\<open>self.actual_screenshot_height\<close> of the capturer (\<open>None\<close> as
  \<^verbatim>\<open>__init__\<close> leaves it), and the log of browser calls.
\<close>

record state =
  files :: "string \<rightharpoonup> image"
  scroll_y :: int
  actual_screenshot_height :: "int option"
  driver_log :: "event list"

definition scrollTo :: "driver \<Rightarrow> int \<Rightarrow> state \<Rightarrow> error + state" where
  "scrollTo d y s =
     (if scroll_raises d y then Inl WebDriverException
      else Inr (s\<lparr>scroll_y := y, driver_log := driver_log s @ [ScrollTo y]\<rparr>))"

definition save_screenshot :: "driver \<Rightarrow> string \<Rightarrow> state \<Rightarrow> error + state" where
  "save_screenshot d path s =
     (case screenshot d (scroll_y s) path of
        ShotRaises \<Rightarrow> Inl WebDriverException
      | NotWritten \<Rightarrow> Inr (s\<lparr>driver_log := driver_log s @ [SaveScreenshot path]\<rparr>)
      | Written img \<Rightarrow>
          Inr (s\<lparr>files := (files s)(path \<mapsto> img),
                driver_log := driver_log s @ [SaveScreenshot path]\<rparr>))"

text \<open>\<^verbatim>\<open>Image.open(path)\<close> raises when there is no such file.\<close>

definition Image_open :: "state \<Rightarrow> string \<Rightarrow> error + image" where
  "Image_open s path = (case files s path of None \<Rightarrow> Inl FileNotFoundError | Some img \<Rightarrow> Inr img)"

text \<open>\<^verbatim>\<open>os.remove(path)\<close> raises when there is no such file.\<close>

definition os_remove :: "string \<Rightarrow> state \<Rightarrow> error + state" where
  "os_remove path s =
     (if files s path = None then Inl FileNotFoundError
      else Inr (s\<lparr>files := (files s)(path := None)\<rparr>))"

section \<open>capture_full_page\<close>

text \<open>
  Lines 139 to 145: the height of a screenshot is measured when the cached field is
  falsy (\<open>None\<close> or 0). The result is the error raised together with the state reached.
\<close>

definition discover_height :: "driver \<Rightarrow> string \<Rightarrow> state \<Rightarrow> error option \<times> state" where
  "discover_height d output_dir s =
     (if actual_screenshot_height s = None \<or> actual_screenshot_height s = Some 0 then
        (case save_screenshot d (test_path output_dir) s of
           Inl e \<Rightarrow> (Some e, s)
         | Inr s1 \<Rightarrow>
             (case Image_open s1 (test_path output_dir) of
                Inl e \<Rightarrow> (Some e, s1)
              | Inr img \<Rightarrow>
                  (let s2 = s1\<lparr>actual_screenshot_height := Some (int (im_height img))\<rparr>
                   in case os_remove (test_path output_dir) s2 of
                        Inl e \<Rightarrow> (Some e, s2)
                      | Inr s3 \<Rightarrow> (None, s3))))
      else (None, s))"

text \<open>
  Lines 153 to 158, the loop over \<^verbatim>\<open>range(num_full_scrolls)\<close>: the indices still to
  do, the list \<^verbatim>\<open>screenshots\<close> so far and the state. It stops at the first call that
  raises.
\<close>

fun full_scrolls ::
  "driver \<Rightarrow> string \<Rightarrow> string \<Rightarrow> int \<Rightarrow> nat list \<Rightarrow> string list \<Rightarrow> state
     \<Rightarrow> error option \<times> string list \<times> state" where
  "full_scrolls d crf_name output_dir S [] screenshots s = (None, screenshots, s)"
| "full_scrolls d crf_name output_dir S (i # rest) screenshots s =
     (case scrollTo d (int i * S) s of
        Inl e \<Rightarrow> (Some e, screenshots, s)
      | Inr s1 \<Rightarrow>
          (case save_screenshot d (temp_path output_dir crf_name i) s1 of
             Inl e \<Rightarrow> (Some e, screenshots, s1)
           | Inr s2 \<Rightarrow>
               full_scrolls d crf_name output_dir S rest
                 (screenshots @ [temp_path output_dir crf_name i]) s2))"

text \<open>Lines 161 to 170, the leftover part.\<close>

definition leftover ::
  "driver \<Rightarrow> string \<Rightarrow> string \<Rightarrow> int \<Rightarrow> int \<Rightarrow> int \<Rightarrow> string list \<Rightarrow> state
     \<Rightarrow> error option \<times> string list \<times> state" where
  "leftover d crf_name output_dir full_height S remaining_height screenshots s =
     (if remaining_height > 0 then
        (case scrollTo d (full_height - S) s of
           Inl e \<Rightarrow> (Some e, screenshots, s)
         | Inr s1 \<Rightarrow>
             (case save_screenshot d (final_path output_dir crf_name) s1 of
                Inl e \<Rightarrow> (Some e, screenshots, s1)
              | Inr s2 \<Rightarrow>
                  (case Image_open s2 (final_path output_dir crf_name) of
                     Inl e \<Rightarrow> (Some e, screenshots, s2)
                   | Inr img \<Rightarrow>
                       (let crop_y = int (im_height img) - remaining_height;
                            cropped = crop img (0, crop_y, int (im_width img), int (im_height img));
                            s3 = s2\<lparr>files := (files s2)(final_path output_dir crf_name \<mapsto> cropped)\<rparr>
                        in (None, screenshots @ [final_path output_dir crf_name], s3)))))
      else (None, screenshots, s))"

text \<open>
  Lines 178 and 179: the screenshot at index \<open>idx\<close> of \<open>n\<close> is pasted as it is,
  except the last one when there is a remainder, which is cropped to its bottom
  \<^verbatim>\<open>remaining_height\<close> rows.
\<close>

definition slice_image :: "int \<Rightarrow> nat \<Rightarrow> nat \<Rightarrow> image \<Rightarrow> image" where
  "slice_image remaining_height n idx img =
     (if int idx = int n - 1 \<and> remaining_height > 0
      then crop img (0, int (im_height img) - remaining_height,
                     int (im_width img), int (im_height img))
      else img)"

text \<open>
  Lines 176 to 184, the loop that pastes the screenshots: \<open>n\<close> is
  \<^verbatim>\<open>len(screenshots)\<close>, \<open>idx\<close> the index of the first path still to do.
\<close>

fun stitch_loop ::
  "(string \<rightharpoonup> image) \<Rightarrow> int \<Rightarrow> int \<Rightarrow> nat \<Rightarrow> nat \<Rightarrow> string list \<Rightarrow> image \<Rightarrow> int
     \<Rightarrow> error + image" where
  "stitch_loop fs full_height remaining_height n idx [] final_image y_offset = Inr final_image"
| "stitch_loop fs full_height remaining_height n idx (path # rest) final_image y_offset =
     (case fs path of
        None \<Rightarrow> Inl FileNotFoundError
      | Some img0 \<Rightarrow>
          (let img = slice_image remaining_height n idx img0;
               paste_height = min (int (im_height img)) (full_height - y_offset);
               final_image' = paste final_image img (0, y_offset);
               y_offset' = y_offset + paste_height
           in if y_offset' \<ge> full_height then Inr final_image'
              else stitch_loop fs full_height remaining_height n (Suc idx) rest
                     final_image' y_offset'))"

text \<open>Lines 173 to 185: \<open>Inr None\<close> when the list is empty and nothing is returned.\<close>

definition stitch ::
  "(string \<rightharpoonup> image) \<Rightarrow> int \<Rightarrow> int \<Rightarrow> int \<Rightarrow> string list \<Rightarrow> error + image option" where
  "stitch fs full_width full_height remaining_height screenshots =
     (if screenshots \<noteq> [] then
        (case Image_new full_width full_height of
           Inl e \<Rightarrow> Inl e
         | Inr final_image \<Rightarrow>
             (case stitch_loop fs full_height remaining_height (length screenshots) 0
                     screenshots final_image 0 of
                Inl e \<Rightarrow> Inl e
              | Inr img \<Rightarrow> Inr (Some (crop img (0, 0, full_width, full_height)))))
      else Inr None)"

text \<open>Lines 147 and 148, for a divisor that is not 0 (the division raises on 0).\<close>

definition num_full_scrolls :: "int \<Rightarrow> int \<Rightarrow> int" where
  "num_full_scrolls full_height S = full_height div S"

definition remaining_height :: "int \<Rightarrow> int \<Rightarrow> int" where
  "remaining_height full_height S = full_height mod S"

text \<open>
  Lines 153 to 170, the acquisition of the screenshots: the error raised if any, the list
  \<^verbatim>\<open>screenshots\<close> and the state reached.
\<close>

definition acquire ::
  "driver \<Rightarrow> string \<Rightarrow> string \<Rightarrow> int \<Rightarrow> int \<Rightarrow> state
     \<Rightarrow> error option \<times> string list \<times> state" where
  "acquire d crf_name output_dir full_height S s =
     (case full_scrolls d crf_name output_dir S [0..<nat (num_full_scrolls full_height S)] [] s of
        (Some e, screenshots, s1) \<Rightarrow> (Some e, screenshots, s1)
      | (None, screenshots, s1) \<Rightarrow>
          leftover d crf_name output_dir full_height S (remaining_height full_height S)
            screenshots s1)"

text \<open>
  Lines 151 to 185, the body of the \<^verbatim>\<open>try\<close>: what it raises or returns, the list
  \<^verbatim>\<open>screenshots\<close> and the state when control reaches the \<^verbatim>\<open>finally\<close>.
\<close>

definition try_block ::
  "driver \<Rightarrow> string \<Rightarrow> string \<Rightarrow> int \<Rightarrow> int \<Rightarrow> int \<Rightarrow> state
     \<Rightarrow> (error + image option) \<times> string list \<times> state" where
  "try_block d crf_name output_dir full_width full_height S s =
     (case acquire d crf_name output_dir full_height S s of
        (Some e, screenshots, s1) \<Rightarrow> (Inl e, screenshots, s1)
      | (None, screenshots, s1) \<Rightarrow>
          (stitch (files s1) full_width full_height (remaining_height full_height S) screenshots,
           screenshots, s1))"

text \<open>Lines 188 to 190, the \<^verbatim>\<open>finally\<close>: every listed file that exists is removed.\<close>

fun cleanup :: "string list \<Rightarrow> state \<Rightarrow> state" where
  "cleanup [] s = s"
| "cleanup (path # rest) s =
     cleanup rest (if files s path \<noteq> None then s\<lparr>files := (files s)(path := None)\<rparr> else s)"

text \<open>
  The whole method: the result is \<open>Inl e\<close> when it raises \<open>e\<close>, \<open>Inr (Some img)\<close> when
  it returns the stitched image and \<open>Inr None\<close> when it returns \<^verbatim>\<open>None\<close>.
\<close>

definition capture_full_page ::
  "driver \<Rightarrow> string \<Rightarrow> string \<Rightarrow> state \<Rightarrow> (error + image option) \<times> state" where
  "capture_full_page d crf_name output_dir s =
     (case page_dimensions d of
        None \<Rightarrow> (Inl WebDriverException, s)
      | Some (full_width, full_height) \<Rightarrow>
          (case discover_height d output_dir s of
             (Some e, s1) \<Rightarrow> (Inl e, s1)
           | (None, s1) \<Rightarrow>
               (case actual_screenshot_height s1 of
                  None \<Rightarrow> (Inl TypeError, s1)
                | Some S \<Rightarrow>
                    if S = 0 then (Inl ZeroDivisionError, s1)
                    else (case try_block d crf_name output_dir full_width full_height S s1 of
                            (res, screenshots, s2) \<Rightarrow> (res, cleanup screenshots s2)))))"

section \<open>A page and a browser to run the capture on\<close>

text \<open>
  A document whose row \<open>y\<close> has the colour \<open>y + 1\<close> in every column, and a browser
  that shows it through a viewport of height \<open>S\<close>: it never raises, it clamps a scroll
  request to the range the document allows, and a screenshot is the part of the document
  in the viewport.
\<close>

definition example_page :: "int \<Rightarrow> int \<Rightarrow> image" where
  "example_page w h = raster (nat w) (nat h) (\<lambda>x y. nat y + 1)"

definition example_driver :: "int \<Rightarrow> int \<Rightarrow> int \<Rightarrow> driver" where
  "example_driver w h S =
     \<lparr>page_dimensions = Some (w, h),
      scroll_raises = (\<lambda>y. False),
      screenshot = (\<lambda>y path.
        Written (crop (example_page w h)
                   (0, min (max 0 y) (max 0 (h - S)), w, min (max 0 y) (max 0 (h - S)) + S)))\<rparr>"

text \<open>The same browser, except that scrolling to \<open>y0\<close> raises.\<close>

definition failing_driver :: "int \<Rightarrow> int \<Rightarrow> int \<Rightarrow> int \<Rightarrow> driver" where
  "failing_driver w h S y0 = (example_driver w h S)\<lparr>scroll_raises := (\<lambda>y. y = y0)\<rparr>"

text \<open>A capturer as \<^verbatim>\<open>__init__\<close> leaves it, on an empty directory.\<close>

definition fresh_state :: state where
  "fresh_state =
     \<lparr>files = Map.empty, scroll_y = 0, actual_screenshot_height = None, driver_log = []\<rparr>"

text \<open>The same capturer once the screenshot height \<open>S\<close> is cached.\<close>

definition cached_state :: "int \<Rightarrow> state" where
  "cached_state S = fresh_state\<lparr>actual_screenshot_height := Some S\<rparr>"


section \<open>Bitmap operations\<close>

lemma raster_dims [simp]:
  "im_width (raster w h f) = w" "im_height (raster w h f) = h"
  by (simp_all add: raster_def)

lemma pixel_at_raster:
  "pixel_at (raster w h f) x y =
     (if 0 \<le> x \<and> x < int w \<and> 0 \<le> y \<and> y < int h then f x y else 0)"
  by (auto simp add: pixel_at_def raster_def)

lemma crop_dims [simp]:
  "im_width (crop img (l, u, r, b)) = nat (r - l)"
  "im_height (crop img (l, u, r, b)) = nat (b - u)"
  by (simp_all add: crop_def)

lemma paste_dims [simp]:
  "im_width (paste dst src pos) = im_width dst"
  "im_height (paste dst src pos) = im_height dst"
  by (simp_all add: paste_def split: prod.splits)

lemma pixel_at_crop:
  "pixel_at (crop img (l, u, r, b)) x y =
     (if 0 \<le> x \<and> x < r - l \<and> 0 \<le> y \<and> y < b - u then pixel_at img (x + l) (y + u) else 0)"
  by (auto simp add: crop_def pixel_at_raster)

lemma pixel_at_paste:
  "pixel_at (paste dst src (x0, y0)) x y =
     (if x0 \<le> x \<and> x < x0 + int (im_width src) \<and> y0 \<le> y \<and> y < y0 + int (im_height src)
         \<and> 0 \<le> x \<and> x < int (im_width dst) \<and> 0 \<le> y \<and> y < int (im_height dst)
      then pixel_at src (x - x0) (y - y0) else pixel_at dst x y)"
  by (auto simp add: paste_def pixel_at_raster) (auto simp add: pixel_at_def)

section \<open>The file names are distinct\<close>

lemma length_digits: "length digits = 10"
  by (simp add: digits_def)

lemma distinct_digits: "distinct digits"
  by (simp add: digits_def)

lemma f_not_digit: "CHR ''f'' \<notin> set digits"
  by (simp add: digits_def)

lemma digit_inj:
  assumes "a < 10" "b < 10" "digits ! a = digits ! b"
  shows "a = b"
  using assms distinct_digits by (simp add: nth_eq_iff_index_eq length_digits)

lemma str_nat_nonempty: "str_nat n \<noteq> []"
  by (subst str_nat.simps) simp

lemma str_nat_digits: "set (str_nat n) \<subseteq> set digits"
proof (induction n rule: str_nat.induct)
  case (1 n)
  have m: "digits ! k \<in> set digits" if "k < 10" for k
    using that by (simp add: length_digits)
  show ?case
  proof (cases "n < 10")
    case True
    with m [of n] show ?thesis by (subst str_nat.simps) simp
  next
    case False
    with 1 m [of "n mod 10"] show ?thesis by (subst str_nat.simps) simp
  qed
qed

lemma str_nat_inj: "str_nat m = str_nat n \<Longrightarrow> m = n"
proof (induction m arbitrary: n rule: str_nat.induct)
  case (1 m)
  show ?case
  proof (cases "m < 10")
    case m: True
    show ?thesis
    proof (cases "n < 10")
      case True
      with m 1(2) show ?thesis
        by (auto simp add: str_nat.simps [of m] str_nat.simps [of n] intro: digit_inj)
    next
      case False
      with m 1(2) str_nat_nonempty [of "n div 10"] show ?thesis
        by (simp add: str_nat.simps [of m] str_nat.simps [of n])
    qed
  next
    case m: False
    show ?thesis
    proof (cases "n < 10")
      case True
      with m 1(2) str_nat_nonempty [of "m div 10"] show ?thesis
        by (simp add: str_nat.simps [of m] str_nat.simps [of n])
    next
      case False
      with m 1(2) have e: "str_nat (m div 10) = str_nat (n div 10)"
        and f: "digits ! (m mod 10) = digits ! (n mod 10)"
        by (simp_all add: str_nat.simps [of m] str_nat.simps [of n])
      from 1(1) [OF m e] have "m div 10 = n div 10" .
      moreover from f have "m mod 10 = n mod 10" by (intro digit_inj) simp_all
      ultimately show ?thesis by (metis div_mult_mod_eq)
    qed
  qed
qed

lemma str_nat_not_final: "str_nat i \<noteq> ''final''"
proof
  assume "str_nat i = ''final''"
  then have "CHR ''f'' \<in> set (str_nat i)" by simp
  with str_nat_digits [of i] f_not_digit show False by auto
qed

lemma os_path_join_relative:
  assumes "b \<noteq> []" "hd b \<noteq> CHR ''/''"
  shows "os_path_join a b = (if a = [] \<or> last a = CHR ''/'' then a else a @ ''/'') @ b"
  using assms by (simp add: os_path_join_def)

lemma temp_path_inj: "temp_path dir crf i = temp_path dir crf j \<Longrightarrow> i = j"
  by (simp add: temp_path_def os_path_join_relative str_nat_inj)

lemma temp_path_not_final: "temp_path dir crf i \<noteq> final_path dir crf"
  by (simp add: temp_path_def final_path_def os_path_join_relative str_nat_not_final)

lemma test_path_not_temp: "test_path dir \<noteq> temp_path dir crf i"
  by (simp add: temp_path_def test_path_def os_path_join_relative)

lemma test_path_not_final: "test_path dir \<noteq> final_path dir crf"
  by (simp add: final_path_def test_path_def os_path_join_relative)

section \<open>What the acquisition does to the state\<close>

lemma scrollTo_Inr:
  assumes "scrollTo d y s = Inr s'"
  shows "files s' = files s" "actual_screenshot_height s' = actual_screenshot_height s"
    "driver_log s' = driver_log s @ [ScrollTo y]" "scroll_y s' = y"
  using assms by (auto simp add: scrollTo_def split: if_splits)

lemma save_screenshot_Inr:
  assumes "save_screenshot d path s = Inr s'"
  shows "actual_screenshot_height s' = actual_screenshot_height s"
    "driver_log s' = driver_log s @ [SaveScreenshot path]" "scroll_y s' = scroll_y s"
    "q \<noteq> path \<Longrightarrow> files s' q = files s q"
  using assms by (auto simp add: save_screenshot_def split: shot_result.splits)

lemma save_screenshot_ok:
  assumes "screenshot d (scroll_y s) path \<noteq> ShotRaises"
  shows "\<exists>s'. save_screenshot d path s = Inr s'"
  using assms by (cases "screenshot d (scroll_y s) path") (simp_all add: save_screenshot_def)

lemma full_scrolls_frame:
  assumes "full_scrolls d crf dir S idxs shots s = (e, shots', s')"
  shows "actual_screenshot_height s' = actual_screenshot_height s \<and>
         (\<exists>new. shots' = shots @ new \<and> (\<forall>q. q \<notin> set new \<longrightarrow> files s' q = files s q))"
  using assms
proof (induction idxs arbitrary: shots s)
  case Nil
  then show ?case by simp
next
  case (Cons i rest)
  show ?case
  proof (cases "scrollTo d (int i * S) s")
    case (Inl e1)
    with Cons.prems show ?thesis by simp
  next
    case s1: (Inr s1)
    show ?thesis
    proof (cases "save_screenshot d (temp_path dir crf i) s1")
      case (Inl e2)
      with s1 Cons.prems scrollTo_Inr [OF s1] show ?thesis by simp
    next
      case s2: (Inr s2)
      with s1 Cons.prems
      have "full_scrolls d crf dir S rest (shots @ [temp_path dir crf i]) s2 = (e, shots', s')"
        by simp
      from Cons.IH [OF this] obtain new where
        c: "actual_screenshot_height s' = actual_screenshot_height s2"
        and n: "shots' = (shots @ [temp_path dir crf i]) @ new"
        and f: "\<forall>q. q \<notin> set new \<longrightarrow> files s' q = files s2 q"
        by blast
      have "\<forall>q. q \<notin> set (temp_path dir crf i # new) \<longrightarrow> files s' q = files s q"
        using f save_screenshot_Inr(4) [OF s2] scrollTo_Inr(1) [OF s1] by simp
      moreover have "shots' = shots @ (temp_path dir crf i # new)" using n by simp
      moreover have "actual_screenshot_height s' = actual_screenshot_height s"
        using c save_screenshot_Inr(1) [OF s2] scrollTo_Inr(2) [OF s1] by simp
      ultimately show ?thesis by blast
    qed
  qed
qed

lemma leftover_frame:
  assumes "leftover d crf dir H S r shots s = (e, shots', s')"
  shows "actual_screenshot_height s' = actual_screenshot_height s \<and>
         (\<exists>new. shots' = shots @ new \<and> (\<forall>q. q \<notin> set new \<longrightarrow> files s' q = files s q))"
proof (cases "r > 0")
  case False
  with assms show ?thesis by (simp add: leftover_def)
next
  case r: True
  show ?thesis
  proof (cases "scrollTo d (H - S) s")
    case (Inl e1)
    with assms r show ?thesis by (simp add: leftover_def)
  next
    case s1: (Inr s1)
    show ?thesis
    proof (cases "save_screenshot d (final_path dir crf) s1")
      case (Inl e2)
      with s1 assms r scrollTo_Inr [OF s1] show ?thesis by (simp add: leftover_def)
    next
      case s2: (Inr s2)
      show ?thesis
      proof (cases "files s2 (final_path dir crf)")
        case None
        have "files s2 q = files s q" for q
        proof (cases "q = final_path dir crf")
          case True
          have "files s1 (final_path dir crf) = None"
            using s2 None by (auto simp add: save_screenshot_def split: shot_result.splits)
          with True None scrollTo_Inr(1) [OF s1] show ?thesis by simp
        next
          case False
          with save_screenshot_Inr(4) [OF s2] scrollTo_Inr(1) [OF s1] show ?thesis by simp
        qed
        moreover have "shots' = shots" "s' = s2"
          using assms r s1 s2 None by (simp_all add: leftover_def Image_open_def)
        moreover have "actual_screenshot_height s2 = actual_screenshot_height s"
          using save_screenshot_Inr(1) [OF s2] scrollTo_Inr(2) [OF s1] by simp
        ultimately show ?thesis by simp
      next
        case (Some img)
        with assms r s1 s2 have
          sh: "shots' = shots @ [final_path dir crf]"
          and st: "s' = s2\<lparr>files := (files s2)(final_path dir crf \<mapsto>
                    crop img (0, int (im_height img) - r, int (im_width img), int (im_height img)))\<rparr>"
          by (simp_all add: leftover_def Image_open_def Let_def)
        have "\<forall>q. q \<notin> set [final_path dir crf] \<longrightarrow> files s' q = files s q"
          using st save_screenshot_Inr(4) [OF s2] scrollTo_Inr(1) [OF s1] by simp
        moreover have "actual_screenshot_height s' = actual_screenshot_height s"
          using st save_screenshot_Inr(1) [OF s2] scrollTo_Inr(2) [OF s1] by simp
        ultimately show ?thesis using sh by blast
      qed
    qed
  qed
qed

lemma acquire_frame:
  assumes "acquire d crf dir H S s = (e, shots, s')"
  shows "actual_screenshot_height s' = actual_screenshot_height s \<and>
         (\<forall>q. q \<notin> set shots \<longrightarrow> files s' q = files s q)"
proof -
  obtain e1 shots1 s1 where
    fs: "full_scrolls d crf dir S [0..<nat (num_full_scrolls H S)] [] s = (e1, shots1, s1)"
    by (metis prod_cases3)
  from full_scrolls_frame [OF fs] have
    c1: "actual_screenshot_height s1 = actual_screenshot_height s"
    and f1: "\<forall>q. q \<notin> set shots1 \<longrightarrow> files s1 q = files s q"
    by auto
  show ?thesis
  proof (cases e1)
    case (Some err)
    with assms fs c1 f1 show ?thesis by (simp add: acquire_def)
  next
    case None
    with assms fs have
      "leftover d crf dir H S (remaining_height H S) shots1 s1 = (e, shots, s')"
      by (simp add: acquire_def)
    from leftover_frame [OF this] obtain new where
      "actual_screenshot_height s' = actual_screenshot_height s1"
      "shots = shots1 @ new" "\<forall>q. q \<notin> set new \<longrightarrow> files s' q = files s1 q"
      by blast
    with c1 f1 show ?thesis by simp
  qed
qed

lemma try_block_frame:
  assumes "try_block d crf dir W H S s = (res, shots, s')"
  shows "actual_screenshot_height s' = actual_screenshot_height s \<and>
         (\<forall>q. q \<notin> set shots \<longrightarrow> files s' q = files s q)"
proof -
  obtain e shots1 s1 where a: "acquire d crf dir H S s = (e, shots1, s1)"
    by (metis prod_cases3)
  with assms have "shots = shots1" "s' = s1"
    by (auto simp add: try_block_def split: option.splits)
  with acquire_frame [OF a] show ?thesis by simp
qed

lemma cleanup_files:
  "files (cleanup shots s) q = (if q \<in> set shots then None else files s q)"
  by (induction shots arbitrary: s) auto

lemma cleanup_other:
  "actual_screenshot_height (cleanup shots s) = actual_screenshot_height s"
  "driver_log (cleanup shots s) = driver_log s"
  by (induction shots arbitrary: s) auto

lemma discover_height_files:
  assumes "discover_height d dir s = (e, s')"
  shows "files s' q \<noteq> None \<Longrightarrow> files s q \<noteq> None"
  using assms
  by (auto simp add: discover_height_def save_screenshot_def Image_open_def os_remove_def Let_def
      split: if_splits sum.splits shot_result.splits option.splits)

lemma discover_height_cached:
  assumes "actual_screenshot_height s = Some S" "S \<noteq> 0"
  shows "discover_height d dir s = (None, s)"
  using assms by (simp add: discover_height_def)


text \<open>
  In this model a file that exists can always be opened, so every file that the capture
  creates is listed before anything can raise, and no file is left behind at all: the
  files that exist when the method ends existed when it started.
\<close>

lemma no_new_files:
  "dom (files (snd (capture_full_page d crf dir s))) \<subseteq> dom (files s)"
proof (cases "page_dimensions d")
  case None
  then show ?thesis by (simp add: capture_full_page_def)
next
  case (Some wh)
  obtain W H where wh: "wh = (W, H)" by (cases wh)
  obtain e s1 where dh: "discover_height d dir s = (e, s1)" by (cases "discover_height d dir s")
  have d1: "dom (files s1) \<subseteq> dom (files s)"
    using discover_height_files [OF dh] by (auto simp add: dom_def)
  show ?thesis
  proof (cases "e = None \<and> (\<exists>S. actual_screenshot_height s1 = Some S \<and> S \<noteq> 0)")
    case False
    then have "snd (capture_full_page d crf dir s) = s1"
      using Some wh dh by (auto simp add: capture_full_page_def split: option.splits)
    with d1 show ?thesis by simp
  next
    case True
    then obtain S where S: "actual_screenshot_height s1 = Some S" "S \<noteq> 0" and e: "e = None"
      by blast
    obtain res shots s2 where tb: "try_block d crf dir W H S s1 = (res, shots, s2)"
      by (metis prod_cases3)
    have c: "snd (capture_full_page d crf dir s) = cleanup shots s2"
      using Some wh dh e S tb by (simp add: capture_full_page_def)
    have "files s1 q \<noteq> None" if "files (cleanup shots s2) q \<noteq> None" for q
    proof -
      from that have "q \<notin> set shots" "files s2 q \<noteq> None"
        by (simp_all add: cleanup_files split: if_splits)
      with try_block_frame [OF tb] show ?thesis by simp
    qed
    then have "dom (files (cleanup shots s2)) \<subseteq> dom (files s1)" by (auto simp add: dom_def)
    with c d1 show ?thesis by simp
  qed
qed

lemma capture_keeps_height:
  assumes "actual_screenshot_height s = Some S" "S \<noteq> 0"
  shows "actual_screenshot_height (snd (capture_full_page d crf dir s)) = Some S"
proof (cases "page_dimensions d")
  case None
  with assms show ?thesis by (simp add: capture_full_page_def)
next
  case (Some wh)
  obtain W H where wh: "wh = (W, H)" by (cases wh)
  obtain res shots s2 where tb: "try_block d crf dir W H S s = (res, shots, s2)"
    by (metis prod_cases3)
  with Some wh assms try_block_frame [OF tb] show ?thesis
    by (simp add: capture_full_page_def discover_height_cached cleanup_other)
qed

lemma captures_keep_height:
  assumes "actual_screenshot_height s = Some S" "S \<noteq> 0"
  shows "actual_screenshot_height
           (foldl (\<lambda>st (d, crf, dir). snd (capture_full_page d crf dir st)) s calls) = Some S"
  using assms
proof (induction calls arbitrary: s)
  case Nil
  then show ?case by simp
next
  case (Cons c calls)
  obtain d crf dir where c: "c = (d, crf, dir)" by (cases c)
  from capture_keeps_height [OF Cons.prems] Cons.IH Cons.prems(2) c show ?case by simp
qed

lemma capture_sets_height:
  assumes "actual_screenshot_height s = None" "page_dimensions d = Some (W, H)"
    "screenshot d (scroll_y s) (test_path dir) = Written img" "0 < im_height img"
  shows "actual_screenshot_height (snd (capture_full_page d crf dir s)) = Some (int (im_height img))"
proof -
  let ?s1 = "s\<lparr>files := (files s)(test_path dir \<mapsto> img),
               driver_log := driver_log s @ [SaveScreenshot (test_path dir)]\<rparr>"
  let ?s3 = "?s1\<lparr>actual_screenshot_height := Some (int (im_height img)),
               files := (files ?s1)(test_path dir := None)\<rparr>"
  have dh: "discover_height d dir s = (None, ?s3)"
    using assms(1,3)
    by (simp add: discover_height_def save_screenshot_def Image_open_def os_remove_def Let_def)
  obtain res shots s2 where
    tb: "try_block d crf dir W H (int (im_height img)) ?s3 = (res, shots, s2)"
    by (metis prod_cases3)
  from try_block_frame [OF tb] have "actual_screenshot_height s2 = Some (int (im_height img))"
    by simp
  with dh tb assms(2,4) show ?thesis
    by (simp add: capture_full_page_def cleanup_other)
qed

section \<open>The screenshots listed\<close>

lemma full_scrolls_None:
  assumes "full_scrolls d crf dir S idxs shots s = (None, shots', s')"
  shows "shots' = shots @ map (temp_path dir crf) idxs"
  using assms
proof (induction idxs arbitrary: shots s)
  case Nil
  then show ?case by simp
next
  case (Cons i rest)
  from Cons.prems obtain s1 s2 where
    "full_scrolls d crf dir S rest (shots @ [temp_path dir crf i]) s2 = (None, shots', s')"
    by (auto split: sum.splits)
  from Cons.IH [OF this] show ?case by simp
qed

lemma leftover_None:
  assumes "leftover d crf dir H S r shots s = (None, shots', s')"
  shows "shots' = shots @ (if r > 0 then [final_path dir crf] else [])"
  using assms
  by (auto simp add: leftover_def Let_def split: sum.splits if_splits)

lemma acquire_None:
  assumes "acquire d crf dir H S s = (None, shots, s')"
  shows "shots = map (temp_path dir crf) [0..<nat (num_full_scrolls H S)] @
                 (if remaining_height H S > 0 then [final_path dir crf] else [])"
proof -
  obtain e1 shots1 s1 where
    fs: "full_scrolls d crf dir S [0..<nat (num_full_scrolls H S)] [] s = (e1, shots1, s1)"
    by (metis prod_cases3)
  show ?thesis
  proof (cases e1)
    case (Some err)
    with assms fs show ?thesis by (simp add: acquire_def)
  next
    case None
    with assms fs have
      "leftover d crf dir H S (remaining_height H S) shots1 s1 = (None, shots, s')"
      by (simp add: acquire_def)
    from leftover_None [OF this] full_scrolls_None [OF fs [unfolded None]]
    show ?thesis by simp
  qed
qed

lemma some_slice:
  assumes "0 < H" "0 < S"
  shows "0 < nat (num_full_scrolls H S) \<or> 0 < remaining_height H S"
proof (cases "H < S")
  case True
  with assms have "remaining_height H S = H" by (simp add: remaining_height_def)
  with assms show ?thesis by simp
next
  case False
  with assms have "0 < H div S" by (simp add: pos_imp_zdiv_pos_iff)
  then show ?thesis by (simp add: num_full_scrolls_def)
qed

lemma acquire_nonempty:
  assumes "acquire d crf dir H S s = (None, shots, s')" "0 < H" "0 < S"
  shows "shots \<noteq> []"
  using acquire_None [OF assms(1)] some_slice [OF assms(2,3)] by auto

lemma plan_bound:
  assumes "0 < S" "i < nat (H div S)"
  shows "int i * S \<le> H - S"
proof -
  from assms(2) have "int i + 1 \<le> H div S" by linarith
  with assms(1) have "(int i + 1) * S \<le> (H div S) * S" by (simp only: mult_right_mono)
  also have "\<dots> \<le> H"
    using div_mult_mod_eq [of H S] pos_mod_sign [OF assms(1), of H] by linarith
  finally show ?thesis by (simp add: algebra_simps)
qed

lemma full_rows:
  assumes "0 < S" "0 < H"
  shows "int (nat (num_full_scrolls H S)) * S = H - remaining_height H S"
proof -
  have "0 \<le> H div S" using assms by (simp add: pos_imp_zdiv_nonneg_iff)
  moreover have "H div S * S = H - H mod S"
    using div_mult_mod_eq [of H S] by linarith
  ultimately show ?thesis
    by (simp add: num_full_scrolls_def remaining_height_def)
qed

section \<open>The browser calls made\<close>

lemma full_scrolls_log:
  assumes "\<forall>i \<in> set idxs. \<not> scroll_raises d (int i * S) \<and>
             screenshot d (int i * S) (temp_path dir crf i) \<noteq> ShotRaises"
  shows "\<exists>s'. full_scrolls d crf dir S idxs shots s =
                 (None, shots @ map (temp_path dir crf) idxs, s') \<and>
               driver_log s' = driver_log s @
                 concat (map (\<lambda>i. [ScrollTo (int i * S), SaveScreenshot (temp_path dir crf i)]) idxs)"
  using assms
proof (induction idxs arbitrary: shots s)
  case Nil
  then show ?case by simp
next
  case (Cons i rest)
  let ?s1 = "s\<lparr>scroll_y := int i * S, driver_log := driver_log s @ [ScrollTo (int i * S)]\<rparr>"
  have s1: "scrollTo d (int i * S) s = Inr ?s1"
    using Cons.prems by (simp add: scrollTo_def)
  obtain s2 where s2: "save_screenshot d (temp_path dir crf i) ?s1 = Inr s2"
    using Cons.prems save_screenshot_ok [of d ?s1 "temp_path dir crf i"] by auto
  have l2: "driver_log s2 = driver_log s @
      [ScrollTo (int i * S), SaveScreenshot (temp_path dir crf i)]"
    using save_screenshot_Inr(2) [OF s2] by simp
  have "\<forall>i \<in> set rest. \<not> scroll_raises d (int i * S) \<and>
      screenshot d (int i * S) (temp_path dir crf i) \<noteq> ShotRaises"
    using Cons.prems by simp
  from Cons.IH [OF this, of "shots @ [temp_path dir crf i]" s2] s1 s2 l2
  show ?case by auto
qed

lemma leftover_log:
  assumes "\<not> scroll_raises d (H - S)"
    and "screenshot d (H - S) (final_path dir crf) \<noteq> ShotRaises"
  shows "driver_log (snd (snd (leftover d crf dir H S r shots s))) =
           driver_log s @ (if 0 < r then [ScrollTo (H - S), SaveScreenshot (final_path dir crf)]
                           else [])"
proof (cases "0 < r")
  case False
  then show ?thesis by (simp add: leftover_def)
next
  case True
  let ?s1 = "s\<lparr>scroll_y := H - S, driver_log := driver_log s @ [ScrollTo (H - S)]\<rparr>"
  have s1: "scrollTo d (H - S) s = Inr ?s1"
    using assms by (simp add: scrollTo_def)
  obtain s2 where s2: "save_screenshot d (final_path dir crf) ?s1 = Inr s2"
    using assms save_screenshot_ok [of d ?s1 "final_path dir crf"] by auto
  have "driver_log s2 = driver_log s @ [ScrollTo (H - S), SaveScreenshot (final_path dir crf)]"
    using save_screenshot_Inr(2) [OF s2] by simp
  with True s1 s2 show ?thesis
    by (simp add: leftover_def Image_open_def Let_def split: option.splits)
qed

lemma acquire_log:
  assumes "\<forall>y. \<not> scroll_raises d y" "\<forall>y p. screenshot d y p \<noteq> ShotRaises"
  shows "driver_log (snd (snd (acquire d crf dir H S s))) =
           driver_log s @
           concat (map (\<lambda>i. [ScrollTo (int i * S), SaveScreenshot (temp_path dir crf i)])
                     [0..<nat (num_full_scrolls H S)]) @
           (if 0 < remaining_height H S
            then [ScrollTo (H - S), SaveScreenshot (final_path dir crf)] else [])"
proof -
  obtain s1 where
    "full_scrolls d crf dir S [0..<nat (num_full_scrolls H S)] [] s =
       (None, [] @ map (temp_path dir crf) [0..<nat (num_full_scrolls H S)], s1)"
    "driver_log s1 = driver_log s @
       concat (map (\<lambda>i. [ScrollTo (int i * S), SaveScreenshot (temp_path dir crf i)])
                 [0..<nat (num_full_scrolls H S)])"
    using full_scrolls_log [of "[0..<nat (num_full_scrolls H S)]" d S dir crf "[]" s] assms
    by auto
  then show ?thesis
    using leftover_log [of d H S dir crf "remaining_height H S" _ s1] assms
    by (simp add: acquire_def)
qed

lemma capture_log:
  assumes "page_dimensions d = Some (W, H)" "discover_height d dir s = (None, s1)"
    "actual_screenshot_height s1 = Some S" "S \<noteq> 0"
    "\<forall>y. \<not> scroll_raises d y" "\<forall>y p. screenshot d y p \<noteq> ShotRaises"
  shows "driver_log (snd (capture_full_page d crf dir s)) =
           driver_log s1 @
           concat (map (\<lambda>i. [ScrollTo (int i * S), SaveScreenshot (temp_path dir crf i)])
                     [0..<nat (num_full_scrolls H S)]) @
           (if 0 < remaining_height H S
            then [ScrollTo (H - S), SaveScreenshot (final_path dir crf)] else [])"
proof -
  obtain res shots s2 where tb: "try_block d crf dir W H S s1 = (res, shots, s2)"
    by (metis prod_cases3)
  then have "s2 = snd (snd (acquire d crf dir H S s1))"
    by (auto simp add: try_block_def split: prod.splits option.splits)
  with tb have "driver_log (snd (capture_full_page d crf dir s)) =
      driver_log (snd (snd (acquire d crf dir H S s1)))"
    using assms(1-4) by (simp add: capture_full_page_def cleanup_other)
  with acquire_log [OF assms(5,6)] show ?thesis by simp
qed

text \<open>
  Whatever the browser does, the screenshots saved from the \<^verbatim>\<open>try\<close> on are those of
  the slices, never the discovery screenshot.
\<close>

lemma full_scrolls_events:
  assumes "full_scrolls d crf dir S idxs shots s = (e, shots', s')"
  shows "\<exists>new. driver_log s' = driver_log s @ new \<and> SaveScreenshot (test_path dir) \<notin> set new"
  using assms
proof (induction idxs arbitrary: shots s)
  case Nil
  then show ?case by simp
next
  case (Cons i rest)
  show ?case
  proof (cases "scrollTo d (int i * S) s")
    case (Inl e1)
    with Cons.prems show ?thesis by simp
  next
    case s1: (Inr s1)
    show ?thesis
    proof (cases "save_screenshot d (temp_path dir crf i) s1")
      case (Inl e2)
      with s1 Cons.prems scrollTo_Inr(3) [OF s1] show ?thesis by simp
    next
      case s2: (Inr s2)
      with s1 Cons.prems
      have "full_scrolls d crf dir S rest (shots @ [temp_path dir crf i]) s2 = (e, shots', s')"
        by simp
      from Cons.IH [OF this] obtain new where
        "driver_log s' = driver_log s2 @ new" "SaveScreenshot (test_path dir) \<notin> set new"
        by blast
      with save_screenshot_Inr(2) [OF s2] scrollTo_Inr(3) [OF s1]
        test_path_not_temp [of dir crf i]
      show ?thesis by simp
    qed
  qed
qed

lemma leftover_events:
  assumes "leftover d crf dir H S r shots s = (e, shots', s')"
  shows "\<exists>new. driver_log s' = driver_log s @ new \<and> SaveScreenshot (test_path dir) \<notin> set new"
proof (cases "0 < r")
  case False
  with assms show ?thesis by (simp add: leftover_def)
next
  case r: True
  show ?thesis
  proof (cases "scrollTo d (H - S) s")
    case (Inl e1)
    with assms r show ?thesis by (simp add: leftover_def)
  next
    case s1: (Inr s1)
    show ?thesis
    proof (cases "save_screenshot d (final_path dir crf) s1")
      case (Inl e2)
      with s1 assms r scrollTo_Inr(3) [OF s1] show ?thesis by (simp add: leftover_def)
    next
      case s2: (Inr s2)
      with s1 assms r have "driver_log s' = driver_log s2"
        by (auto simp add: leftover_def Image_open_def Let_def split: option.splits)
      with save_screenshot_Inr(2) [OF s2] scrollTo_Inr(3) [OF s1]
        test_path_not_final [of dir crf]
      show ?thesis by simp
    qed
  qed
qed

lemma try_block_events:
  assumes "try_block d crf dir W H S s = (res, shots, s')"
  shows "\<exists>new. driver_log s' = driver_log s @ new \<and> SaveScreenshot (test_path dir) \<notin> set new"
proof -
  obtain e1 shots1 s1 where
    fs: "full_scrolls d crf dir S [0..<nat (num_full_scrolls H S)] [] s = (e1, shots1, s1)"
    by (metis prod_cases3)
  from full_scrolls_events [OF fs] obtain new1 where
    n1: "driver_log s1 = driver_log s @ new1" "SaveScreenshot (test_path dir) \<notin> set new1"
    by blast
  show ?thesis
  proof (cases e1)
    case (Some err)
    with assms fs have "s' = s1" by (simp add: try_block_def acquire_def)
    with n1 show ?thesis by simp
  next
    case None
    obtain e2 shots2 s2 where
      l: "leftover d crf dir H S (remaining_height H S) shots1 s1 = (e2, shots2, s2)"
      by (metis prod_cases3)
    with assms fs None have "s' = s2"
      by (auto simp add: try_block_def acquire_def split: option.splits)
    with leftover_events [OF l] n1 show ?thesis by auto
  qed
qed

lemma capture_events:
  assumes "actual_screenshot_height s = Some S" "S \<noteq> 0"
  shows "\<exists>new. driver_log (snd (capture_full_page d crf dir s)) = driver_log s @ new \<and>
           SaveScreenshot (test_path dir) \<notin> set new"
proof (cases "page_dimensions d")
  case None
  then show ?thesis by (simp add: capture_full_page_def)
next
  case (Some wh)
  obtain W H where wh: "wh = (W, H)" by (cases wh)
  obtain res shots s2 where tb: "try_block d crf dir W H S s = (res, shots, s2)"
    by (metis prod_cases3)
  with Some wh assms try_block_events [OF tb] show ?thesis
    by (simp add: capture_full_page_def discover_height_cached cleanup_other)
qed

section \<open>The files kept for the slices\<close>

lemma full_scrolls_written:
  assumes "\<forall>y. \<not> scroll_raises d y" "\<forall>y p. \<exists>img. screenshot d y p = Written img"
    "\<forall>p \<in> set shots. files s p \<noteq> None"
  shows "\<exists>shots' s'. full_scrolls d crf dir S idxs shots s = (None, shots', s') \<and>
           (\<forall>p \<in> set shots'. files s' p \<noteq> None)"
  using assms(3)
proof (induction idxs arbitrary: shots s)
  case Nil
  then show ?case by simp
next
  case (Cons i rest)
  let ?s1 = "s\<lparr>scroll_y := int i * S, driver_log := driver_log s @ [ScrollTo (int i * S)]\<rparr>"
  have s1: "scrollTo d (int i * S) s = Inr ?s1"
    using assms(1) by (simp add: scrollTo_def)
  obtain img where w: "screenshot d (int i * S) (temp_path dir crf i) = Written img"
    using assms(2) by blast
  let ?s2 = "?s1\<lparr>files := (files ?s1)(temp_path dir crf i \<mapsto> img),
                driver_log := driver_log ?s1 @ [SaveScreenshot (temp_path dir crf i)]\<rparr>"
  have s2: "save_screenshot d (temp_path dir crf i) ?s1 = Inr ?s2"
    using w by (simp add: save_screenshot_def)
  have "\<forall>p \<in> set (shots @ [temp_path dir crf i]). files ?s2 p \<noteq> None"
    using Cons.prems by simp
  from Cons.IH [OF this] s1 s2 show ?case by simp
qed

lemma leftover_written:
  assumes "\<forall>y. \<not> scroll_raises d y" "\<forall>y p. \<exists>img. screenshot d y p = Written img"
    "\<forall>p \<in> set shots. files s p \<noteq> None"
  shows "\<exists>shots' s'. leftover d crf dir H S r shots s = (None, shots', s') \<and>
           (\<forall>p \<in> set shots'. files s' p \<noteq> None)"
proof (cases "0 < r")
  case False
  with assms(3) show ?thesis by (simp add: leftover_def)
next
  case True
  obtain img where w: "screenshot d (H - S) (final_path dir crf) = Written img"
    using assms(2) by blast
  with True assms(1,3) show ?thesis
    by (simp add: leftover_def scrollTo_def save_screenshot_def Image_open_def Let_def)
qed

lemma acquire_written:
  assumes "\<forall>y. \<not> scroll_raises d y" "\<forall>y p. \<exists>img. screenshot d y p = Written img"
  shows "\<exists>shots s'. acquire d crf dir H S s = (None, shots, s') \<and>
           (\<forall>p \<in> set shots. files s' p \<noteq> None)"
proof -
  obtain shots1 s1 where
    "full_scrolls d crf dir S [0..<nat (num_full_scrolls H S)] [] s = (None, shots1, s1)"
    "\<forall>p \<in> set shots1. files s1 p \<noteq> None"
    using full_scrolls_written [OF assms, of "[]" s] by fastforce
  with leftover_written [OF assms this(2)] show ?thesis
    by (simp add: acquire_def)
qed

lemma leftover_written_file:
  assumes "0 < r" "\<not> scroll_raises d (H - S)"
    and "screenshot d (H - S) (final_path dir crf) = Written img"
  shows "\<exists>s'. leftover d crf dir H S r shots s = (None, shots @ [final_path dir crf], s') \<and>
           files s' (final_path dir crf) =
             Some (crop img (0, int (im_height img) - r, int (im_width img), int (im_height img))) \<and>
           (\<forall>q. q \<noteq> final_path dir crf \<longrightarrow> files s' q = files s q)"
  using assms
  by (simp add: leftover_def scrollTo_def save_screenshot_def Image_open_def Let_def)

lemma full_scrolls_files:
  assumes "full_scrolls d crf dir S idxs shots s = (None, shots', s')" "distinct idxs"
    and "i \<in> set idxs" "screenshot d (int i * S) (temp_path dir crf i) = Written img"
  shows "files s' (temp_path dir crf i) = Some img"
  using assms(1-3)
proof (induction idxs arbitrary: shots s)
  case Nil
  then show ?case by simp
next
  case (Cons j rest)
  from Cons.prems(1) obtain s1 s2 where
    s1: "scrollTo d (int j * S) s = Inr s1"
    and s2: "save_screenshot d (temp_path dir crf j) s1 = Inr s2"
    and run: "full_scrolls d crf dir S rest (shots @ [temp_path dir crf j]) s2 = (None, shots', s')"
    by (auto split: sum.splits)
  show ?case
  proof (cases "i = j")
    case True
    have "scroll_y s1 = int i * S" using scrollTo_Inr(4) [OF s1] True by simp
    with s2 assms(4) True have w: "files s2 (temp_path dir crf i) = Some img"
      by (auto simp add: save_screenshot_def)
    from full_scrolls_frame [OF run] obtain new where
      n: "shots' = (shots @ [temp_path dir crf j]) @ new"
      and f: "\<forall>q. q \<notin> set new \<longrightarrow> files s' q = files s2 q"
      by blast
    from full_scrolls_None [OF run] n have "new = map (temp_path dir crf) rest" by simp
    moreover have "i \<notin> set rest" using Cons.prems(2) True by simp
    ultimately have "temp_path dir crf i \<notin> set new"
      using temp_path_inj by auto
    with f w show ?thesis by simp
  next
    case False
    with Cons.prems(2,3) have "distinct rest" "i \<in> set rest" by simp_all
    from Cons.IH [OF run this] show ?thesis .
  qed
qed

lemma acquire_files:
  assumes nr: "\<forall>y. \<not> scroll_raises d y"
    and full: "\<forall>i < nat (num_full_scrolls H S).
                 screenshot d (int i * S) (temp_path dir crf i) = Written (full i)"
    and fin: "screenshot d (H - S) (final_path dir crf) = Written fin"
    and r: "0 < remaining_height H S"
  shows "\<exists>s2. acquire d crf dir H S s =
                 (None, map (temp_path dir crf) [0..<nat (num_full_scrolls H S)] @
                        [final_path dir crf], s2) \<and>
               (\<forall>i < nat (num_full_scrolls H S). files s2 (temp_path dir crf i) = Some (full i)) \<and>
               files s2 (final_path dir crf) =
                 Some (crop fin (0, int (im_height fin) - remaining_height H S,
                                 int (im_width fin), int (im_height fin)))"
proof -
  let ?n = "nat (num_full_scrolls H S)"
  have "\<forall>i \<in> set [0..<?n]. \<not> scroll_raises d (int i * S) \<and>
      screenshot d (int i * S) (temp_path dir crf i) \<noteq> ShotRaises"
    using nr full by simp
  from full_scrolls_log [OF this, of "[]" s] obtain s1 where
    run: "full_scrolls d crf dir S [0..<?n] [] s = (None, map (temp_path dir crf) [0..<?n], s1)"
    by auto
  have f1: "files s1 (temp_path dir crf i) = Some (full i)" if "i < ?n" for i
    using full_scrolls_files [OF run, of i "full i"] that full by simp
  from leftover_written_file [OF r _ fin, of "map (temp_path dir crf) [0..<?n]" s1] nr
  obtain s2 where
    l: "leftover d crf dir H S (remaining_height H S) (map (temp_path dir crf) [0..<?n]) s1 =
          (None, map (temp_path dir crf) [0..<?n] @ [final_path dir crf], s2)"
    and ff: "files s2 (final_path dir crf) =
          Some (crop fin (0, int (im_height fin) - remaining_height H S,
                          int (im_width fin), int (im_height fin)))"
    and fr: "\<forall>q. q \<noteq> final_path dir crf \<longrightarrow> files s2 q = files s1 q"
    by auto
  have "files s2 (temp_path dir crf i) = Some (full i)" if "i < ?n" for i
    using fr f1 [OF that] temp_path_not_final [of dir crf i] by simp
  with run l ff show ?thesis by (simp add: acquire_def)
qed

section \<open>The stitching loop\<close>

lemma stitch_loop_Cons:
  assumes "fs p = Some img0"
  shows "stitch_loop fs H r n idx (p # ps) canvas y =
     (if H \<le> y + int (im_height (slice_image r n idx img0))
      then Inr (paste canvas (slice_image r n idx img0) (0, y))
      else stitch_loop fs H r n (Suc idx) ps (paste canvas (slice_image r n idx img0) (0, y))
             (y + int (im_height (slice_image r n idx img0))))"
  using assms by (simp add: Let_def min_def)

lemma stitch_loop_Inr:
  assumes "stitch_loop fs H r n idx (p # ps) canvas y = Inr out"
  shows "\<exists>img0. fs p = Some img0"
  using assms by (auto split: option.splits)

lemma stitch_loop_dims:
  assumes "stitch_loop fs H r n idx ps canvas y = Inr out"
  shows "im_width out = im_width canvas \<and> im_height out = im_height canvas"
  using assms
proof (induction ps arbitrary: idx canvas y)
  case Nil
  then show ?case by simp
next
  case (Cons p ps)
  from stitch_loop_Inr [OF Cons.prems] obtain img0 where f: "fs p = Some img0" by blast
  show ?case
  proof (cases "H \<le> y + int (im_height (slice_image r n idx img0))")
    case True
    with Cons.prems have "out = paste canvas (slice_image r n idx img0) (0, y)"
      by (simp only: stitch_loop_Cons [of fs p, OF f] if_True sum.inject)
    then show ?thesis by simp
  next
    case False
    with Cons.prems have
      "stitch_loop fs H r n (Suc idx) ps (paste canvas (slice_image r n idx img0) (0, y))
         (y + int (im_height (slice_image r n idx img0))) = Inr out"
      by (simp only: stitch_loop_Cons [of fs p, OF f] if_False)
    from Cons.IH [OF this] show ?thesis by simp
  qed
qed

lemma stitch_loop_above:
  assumes "stitch_loop fs H r n idx ps canvas y = Inr out" "y' < y"
  shows "pixel_at out x y' = pixel_at canvas x y'"
  using assms
proof (induction ps arbitrary: idx canvas y)
  case Nil
  then show ?case by simp
next
  case (Cons p ps)
  from stitch_loop_Inr [OF Cons.prems(1)] obtain img0 where f: "fs p = Some img0" by blast
  have p: "pixel_at (paste canvas (slice_image r n idx img0) (0, y)) x y' = pixel_at canvas x y'"
    using Cons.prems(2) by (simp add: pixel_at_paste)
  show ?case
  proof (cases "H \<le> y + int (im_height (slice_image r n idx img0))")
    case True
    with Cons.prems have "out = paste canvas (slice_image r n idx img0) (0, y)"
      by (simp only: stitch_loop_Cons [of fs p, OF f] if_True sum.inject)
    with p show ?thesis by simp
  next
    case False
    with Cons.prems have
      "stitch_loop fs H r n (Suc idx) ps (paste canvas (slice_image r n idx img0) (0, y))
         (y + int (im_height (slice_image r n idx img0))) = Inr out"
      by (simp only: stitch_loop_Cons [of fs p, OF f] if_False)
    moreover from Cons.prems(2) have "y' < y + int (im_height (slice_image r n idx img0))"
      by linarith
    ultimately have "pixel_at out x y' =
        pixel_at (paste canvas (slice_image r n idx img0) (0, y)) x y'"
      by (rule Cons.IH)
    with p show ?thesis by simp
  qed
qed

lemma stitch_loop_head:
  assumes "stitch_loop fs H r n idx (p # ps) canvas y = Inr out" "fs p = Some img0"
    and "y \<le> y'" "y' < y + int (im_height (slice_image r n idx img0))"
    and "0 \<le> y" "y' < int (im_height canvas)"
    and "0 \<le> x" "x < int (im_width (slice_image r n idx img0))" "x < int (im_width canvas)"
  shows "pixel_at out x y' = pixel_at (slice_image r n idx img0) x (y' - y)"
proof -
  have p: "pixel_at (paste canvas (slice_image r n idx img0) (0, y)) x y' =
      pixel_at (slice_image r n idx img0) x (y' - y)"
    using assms(3-9) by (simp add: pixel_at_paste)
  show ?thesis
  proof (cases "H \<le> y + int (im_height (slice_image r n idx img0))")
    case True
    with assms(1) have "out = paste canvas (slice_image r n idx img0) (0, y)"
      by (simp only: stitch_loop_Cons [of fs p, OF assms(2)] if_True sum.inject)
    with p show ?thesis by simp
  next
    case False
    with assms(1) have
      "stitch_loop fs H r n (Suc idx) ps (paste canvas (slice_image r n idx img0) (0, y))
         (y + int (im_height (slice_image r n idx img0))) = Inr out"
      by (simp only: stitch_loop_Cons [of fs p, OF assms(2)] if_False)
    from stitch_loop_above [OF this assms(4)] p show ?thesis by simp
  qed
qed

lemma stitch_loop_prefix:
  assumes "\<forall>p \<in> set ps1. \<exists>img. fs p = Some img \<and> int (im_height img) = S"
    and "y + int (length ps1) * S < H"
    and "r \<le> 0 \<or> idx + length ps1 < n"
  shows "\<exists>canvas'. im_width canvas' = im_width canvas \<and> im_height canvas' = im_height canvas \<and>
           stitch_loop fs H r n idx (ps1 @ ps2) canvas y =
           stitch_loop fs H r n (idx + length ps1) ps2 canvas' (y + int (length ps1) * S)"
  using assms
proof (induction ps1 arbitrary: idx canvas y)
  case Nil
  show ?case by (rule exI [of _ canvas]) simp
next
  case (Cons p ps1)
  from Cons.prems(1) obtain img where f: "fs p = Some img" and h: "int (im_height img) = S"
    by auto
  from h have S: "0 \<le> S" by auto
  have "0 \<le> int (length ps1) * S" using S by simp
  with Cons.prems(2) have lt: "y + S < H" and rest: "(y + S) + int (length ps1) * S < H"
    by (simp_all add: algebra_simps)
  have nl: "slice_image r n idx img = img" using Cons.prems(3) by (auto simp add: slice_image_def)
  have step: "stitch_loop fs H r n idx ((p # ps1) @ ps2) canvas y =
      stitch_loop fs H r n (Suc idx) (ps1 @ ps2) (paste canvas img (0, y)) (y + S)"
    using h lt by (simp only: append_Cons stitch_loop_Cons [of fs p, OF f] nl) simp
  have "\<forall>p \<in> set ps1. \<exists>img. fs p = Some img \<and> int (im_height img) = S"
    using Cons.prems(1) by simp
  moreover have "r \<le> 0 \<or> Suc idx + length ps1 < n" using Cons.prems(3) by simp
  ultimately obtain canvas' where
    "im_width canvas' = im_width (paste canvas img (0, y))"
    "im_height canvas' = im_height (paste canvas img (0, y))"
    "stitch_loop fs H r n (Suc idx) (ps1 @ ps2) (paste canvas img (0, y)) (y + S) =
     stitch_loop fs H r n (Suc idx + length ps1) ps2 canvas' ((y + S) + int (length ps1) * S)"
    using Cons.IH [OF _ rest, of "Suc idx" "paste canvas img (0, y)"] by blast
  with step show ?case by (auto simp add: algebra_simps)
qed

lemma stitch_loop_nth:
  assumes loop: "stitch_loop fs H r (length ps) 0 ps canvas 0 = Inr out"
    and k: "k < length ps"
    and pre: "\<forall>p \<in> set (take k ps). \<exists>img. fs p = Some img \<and> int (im_height img) = S"
    and f: "fs (ps ! k) = Some img0"
    and lt: "int k * S < H"
    and y: "int k * S \<le> y'" "y' < int k * S + int (im_height (slice_image r (length ps) k img0))"
      "y' < int (im_height canvas)"
    and x: "0 \<le> x" "x < int (im_width (slice_image r (length ps) k img0))"
      "x < int (im_width canvas)"
    and S: "0 \<le> S"
  shows "pixel_at out x y' = pixel_at (slice_image r (length ps) k img0) x (y' - int k * S)"
proof -
  have ps: "ps = take k ps @ (ps ! k # drop (Suc k) ps)"
    using k by (simp add: id_take_nth_drop)
  have len: "length (take k ps) = k" using k by simp
  from stitch_loop_prefix [of "take k ps" fs S 0 H r 0 "length ps" canvas "ps ! k # drop (Suc k) ps"]
    pre lt k len
  obtain canvas' where c: "im_width canvas' = im_width canvas" "im_height canvas' = im_height canvas"
    and e: "stitch_loop fs H r (length ps) 0 (take k ps @ (ps ! k # drop (Suc k) ps)) canvas 0 =
            stitch_loop fs H r (length ps) k (ps ! k # drop (Suc k) ps) canvas' (int k * S)"
    by auto
  from loop ps e have
    "stitch_loop fs H r (length ps) k (ps ! k # drop (Suc k) ps) canvas' (int k * S) = Inr out"
    by simp
  from stitch_loop_head [OF this f y(1,2) _ _ x(1,2)] y(3) x(3) c S show ?thesis by simp
qed

lemma stitch_loop_cong:
  assumes "map fs1 ps1 = map fs2 ps2"
  shows "stitch_loop fs1 H r n idx ps1 canvas y = stitch_loop fs2 H r n idx ps2 canvas y"
  using assms
proof (induction ps1 arbitrary: ps2 idx canvas y)
  case Nil
  then show ?case by simp
next
  case (Cons p ps1)
  then obtain q qs where q: "ps2 = q # qs" "fs1 p = fs2 q" "map fs1 ps1 = map fs2 qs"
    by (cases ps2) auto
  from Cons.IH [OF q(3)] q(1,2) show ?case
    by (simp add: Let_def split: option.splits)
qed

lemma stitch_loop_total:
  assumes "\<forall>p \<in> set ps. fs p \<noteq> None"
  shows "\<exists>img. stitch_loop fs H r n idx ps canvas y = Inr img"
  using assms
proof (induction ps arbitrary: idx canvas y)
  case Nil
  then show ?case by simp
next
  case (Cons p ps)
  then obtain img0 where "fs p = Some img0" by auto
  with Cons show ?case by (simp add: Let_def)
qed

section \<open>The stitched image\<close>

lemma stitch_dims:
  assumes "stitch fs W H r shots = Inr (Some img)"
  shows "int (im_width img) = W \<and> int (im_height img) = H"
  using assms
  by (auto simp add: stitch_def Image_new_def split: if_splits sum.splits)


lemma stitch_total:
  assumes "\<forall>p \<in> set shots. fs p \<noteq> None" "shots \<noteq> []" "0 \<le> W" "0 \<le> H"
  shows "\<exists>img. stitch fs W H r shots = Inr (Some img)"
proof -
  obtain img where
    "stitch_loop fs H r (length shots) 0 shots (raster (nat W) (nat H) (\<lambda>x y. 0)) 0 = Inr img"
    using stitch_loop_total [OF assms(1)] by blast
  with assms show ?thesis by (simp add: stitch_def Image_new_def)
qed

lemma stitch_cong:
  assumes "map fs1 shots1 = map fs2 shots2"
  shows "stitch fs1 W H r shots1 = stitch fs2 W H r shots2"
proof -
  from assms have "length shots1 = length shots2" by (rule map_eq_imp_length_eq)
  moreover from this have "shots1 = [] \<longleftrightarrow> shots2 = []" by auto
  moreover have "stitch_loop fs1 H r (length shots2) 0 shots1 c 0 =
      stitch_loop fs2 H r (length shots2) 0 shots2 c 0" for c
    by (rule stitch_loop_cong [OF assms])
  ultimately show ?thesis
    by (simp add: stitch_def split: sum.splits)
qed

lemma stitched_content:
  fixes full :: "nat \<Rightarrow> image" and H S W :: int and dir crf :: string
  defines "n \<equiv> nat (num_full_scrolls H S)" and "r \<equiv> remaining_height H S"
  defines "shots \<equiv> map (temp_path dir crf) [0..<n] @ [final_path dir crf]"
  assumes S: "0 < S" and H: "0 < H" and W: "0 \<le> W" and r: "0 < r"
    and full: "\<forall>i < n. fs (temp_path dir crf i) = Some (full i) \<and> int (im_height (full i)) = S"
    and fin: "fs (final_path dir crf) =
                Some (crop fin (0, int (im_height fin) - r, int (im_width fin), int (im_height fin)))"
  shows "\<exists>out. stitch fs W H r shots = Inr (Some out) \<and>
           (\<forall>x y. 0 \<le> x \<and> x < W \<and> x < int (im_width fin) \<and> H - r \<le> y \<and> y < H \<longrightarrow>
              pixel_at out x y = pixel_at fin x (int (im_height fin) - r + (y - (H - r)))) \<and>
           (\<forall>x y. 0 \<le> x \<and> x < W \<and> 0 \<le> y \<and> y < H - r \<and>
                  x < int (im_width (full (nat (y div S)))) \<longrightarrow>
              pixel_at out x y = pixel_at (full (nat (y div S))) x (y mod S))"
proof -
  let ?img0 = "crop fin (0, int (im_height fin) - r, int (im_width fin), int (im_height fin))"
  define canvas where "canvas = raster (nat W) (nat H) (\<lambda>x y. 0)"
  have nS: "int n * S = H - r" unfolding n_def r_def by (rule full_rows [OF S H])
  have len: "length shots = Suc n" by (simp add: shots_def)
  have ne: "shots \<noteq> []" by (simp add: shots_def)
  have ex: "\<forall>p \<in> set shots. fs p \<noteq> None" using full fin by (auto simp add: shots_def)
  obtain img where loop: "stitch_loop fs H r (length shots) 0 shots canvas 0 = Inr img"
    using stitch_loop_total [OF ex] by blast
  have st: "stitch fs W H r shots = Inr (Some (crop img (0, 0, W, H)))"
    using loop ne W H by (simp add: stitch_def Image_new_def canvas_def)
  have dm: "im_width img = nat W" "im_height img = nat H"
    using stitch_loop_dims [OF loop] by (simp_all add: canvas_def)
  have cr: "pixel_at (crop img (0, 0, W, H)) x y = pixel_at img x y"
    if "0 \<le> x" "x < W" "0 \<le> y" "y < H" for x y
    using that by (simp add: pixel_at_crop)
  have tk: "take k shots = map (temp_path dir crf) [0..<k]" if "k \<le> n" for k
    using that by (simp add: shots_def take_map take_upt)
  have pre: "\<forall>p \<in> set (take k shots). \<exists>img. fs p = Some img \<and> int (im_height img) = S"
    if "k \<le> n" for k
    using tk [OF that] full that by auto
  have tail: "pixel_at (crop img (0, 0, W, H)) x y =
      pixel_at fin x (int (im_height fin) - r + (y - (H - r)))"
    if x: "0 \<le> x" "x < W" "x < int (im_width fin)" and y: "H - r \<le> y" "y < H" for x y
  proof -
    have nth: "shots ! n = final_path dir crf" by (simp add: shots_def nth_append)
    have si: "slice_image r (length shots) n ?img0 = crop ?img0 (0, 0, int (im_width fin), r)"
      using r by (simp add: slice_image_def len)
    have "0 \<le> int n * S" using S by simp
    with y nS have y0: "0 \<le> y" by linarith
    have "pixel_at img x y = pixel_at (slice_image r (length shots) n ?img0) x (y - int n * S)"
    proof (rule stitch_loop_nth [OF loop _ pre _ _ _ _ _ _ _ _])
      show "n < length shots" by (simp add: len)
      show "n \<le> n" by simp
      show "fs (shots ! n) = Some ?img0" using nth fin by simp
      show "int n * S < H" using nS r by simp
      show "int n * S \<le> y" using nS y by simp
      show "y < int n * S + int (im_height (slice_image r (length shots) n ?img0))"
        using nS y r by (simp add: si)
      show "y < int (im_height canvas)" using y H by (simp add: canvas_def)
      show "0 \<le> x" by fact
      show "x < int (im_width (slice_image r (length shots) n ?img0))"
        using x by (simp add: si)
      show "x < int (im_width canvas)" using x by (simp add: canvas_def)
      show "0 \<le> S" using S by simp
    qed
    also have "\<dots> = pixel_at fin x (int (im_height fin) - r + (y - (H - r)))"
      using x y r nS by (simp add: si pixel_at_crop algebra_simps)
    finally show ?thesis using cr [OF x(1,2) y0 y(2)] by simp
  qed
  have body: "pixel_at (crop img (0, 0, W, H)) x y = pixel_at (full (nat (y div S))) x (y mod S)"
    if x: "0 \<le> x" "x < W" "x < int (im_width (full (nat (y div S))))"
      and y: "0 \<le> y" "y < H - r" for x y
  proof -
    define k where "k = nat (y div S)"
    have k0: "0 \<le> y div S" using y S by (simp add: pos_imp_zdiv_nonneg_iff)
    have ik: "int k = y div S" using k0 by (simp add: k_def)
    have yk: "y = int k * S + y mod S" using ik by (simp add: algebra_simps)
    have m: "0 \<le> y mod S" "y mod S < S" using S by simp_all
    have "int k * S < int n * S" using yk m y nS by linarith
    then have kn: "k < n" using S by (simp add: mult_less_cancel_right)
    have nth: "shots ! k = temp_path dir crf k" using kn by (simp add: shots_def nth_append)
    have fk: "fs (temp_path dir crf k) = Some (full k)" "int (im_height (full k)) = S"
      using full kn by simp_all
    have si: "slice_image r (length shots) k (full k) = full k"
      using kn by (simp add: slice_image_def len)
    have le: "int (Suc k) * S \<le> int n * S" using kn S by (simp only: mult_right_mono of_nat_le_iff Suc_leI less_imp_le)
    have "pixel_at img x y = pixel_at (slice_image r (length shots) k (full k)) x (y - int k * S)"
    proof (rule stitch_loop_nth [OF loop _ pre _ _ _ _ _ _ _ _])
      show "k < length shots" using kn by (simp add: len)
      show "k \<le> n" using kn by simp
      show "fs (shots ! k) = Some (full k)" using nth fk by simp
      show "int k * S < H" using yk m y r by linarith
      show "int k * S \<le> y" using yk m by linarith
      show "y < int k * S + int (im_height (slice_image r (length shots) k (full k)))"
        using yk m fk by (simp add: si)
      show "y < int (im_height canvas)" using y r H by (simp add: canvas_def)
      show "0 \<le> x" by fact
      show "x < int (im_width (slice_image r (length shots) k (full k)))"
        unfolding si using x by (simp add: k_def)
      show "x < int (im_width canvas)" using x by (simp add: canvas_def)
      show "0 \<le> S" using S by simp
    qed
    also have "\<dots> = pixel_at (full k) x (y mod S)"
    proof -
      have "y - int k * S = y mod S" using yk by linarith
      then show ?thesis by (simp add: si)
    qed
    finally show ?thesis using cr [OF x(1,2) y(1)] y(2) r by (simp add: k_def)
  qed
  from st tail body show ?thesis by blast
qed

lemma try_block_returns:
  assumes "try_block d crf dir W H S s = (Inr (Some img), shots, s')"
  shows "stitch (files s') W H (remaining_height H S) shots = Inr (Some img)"
  using assms
  by (auto simp add: try_block_def split: prod.splits option.splits)


lemma capture_full_page_returns:
  assumes "fst (capture_full_page d crf dir s) = Inr (Some img)"
  shows "\<exists>W H fs r shots. page_dimensions d = Some (W, H) \<and> stitch fs W H r shots = Inr (Some img)"
  using assms
  by (auto simp add: capture_full_page_def split: option.splits prod.splits if_splits
      dest!: try_block_returns)


lemma try_block_image:
  assumes "\<forall>y. \<not> scroll_raises d y" "\<forall>y p. \<exists>img. screenshot d y p = Written img"
    "0 \<le> W" "0 < H" "0 < S"
  shows "\<exists>img. fst (try_block d crf dir W H S s) = Inr (Some img)"
proof -
  obtain shots s' where a: "acquire d crf dir H S s = (None, shots, s')"
    and f: "\<forall>p \<in> set shots. files s' p \<noteq> None"
    using acquire_written [OF assms(1,2)] by blast
  have "shots \<noteq> []" using acquire_nonempty [OF a assms(4,5)] .
  from stitch_total [OF f this assms(3)] assms(4) a show ?thesis
    by (simp add: try_block_def)
qed

section \<open>Runs on the example page\<close>

lemma example_cached:
  "discover_height (example_driver w h S) dir (cached_state 2) = (None, cached_state 2)"
  "discover_height (example_driver w h S) dir (cached_state 400) = (None, cached_state 400)"
  "actual_screenshot_height (cached_state S') = Some S'"
  "driver_log (cached_state S') = []"
  "page_dimensions (example_driver w h S) = Some (w, h)"
  "\<forall>y. \<not> scroll_raises (example_driver w h S) y"
  "\<forall>y p. screenshot (example_driver w h S) y p \<noteq> ShotRaises"
  by (simp_all add: discover_height_def cached_state_def fresh_state_def example_driver_def)

lemma upt_small: "[0..<2] = [0, 1]" "[0..<1] = [0]"
  by (simp_all add: upt_rec)

lemma example_run_5_2:
  "fst (capture_full_page (example_driver 3 5 2) ''x'' ''out'' fresh_state) =
     Inr (Some (example_page 3 5))"
  by code_simp

lemma failing_run:
  "fst (try_block (failing_driver 3 5 2 2) ''x'' ''out'' 3 5 2
          (snd (discover_height (failing_driver 3 5 2 2) ''out'' fresh_state))) =
     Inl WebDriverException"
  "fst (snd (try_block (failing_driver 3 5 2 2) ''x'' ''out'' 3 5 2
          (snd (discover_height (failing_driver 3 5 2 2) ''out'' fresh_state)))) =
     [temp_path ''out'' ''x'' 0]"
  "fst (discover_height (failing_driver 3 5 2 2) ''out'' fresh_state) = None"
  "actual_screenshot_height (snd (discover_height (failing_driver 3 5 2 2) ''out'' fresh_state)) =
     Some 2"
  by code_simp+

lemma example_first_capture:
  "actual_screenshot_height
     (snd (capture_full_page (example_driver 3 5 2) ''x'' ''out'' fresh_state)) = Some 2"
  by code_simp

lemma example_shots:
  "\<forall>i < nat (num_full_scrolls 5 2).
     screenshot (example_driver 3 5 2) (int i * 2) (temp_path ''out'' ''x'' i) =
       Written (crop (example_page 3 5) (0, min (int i * 2) 3, 3, min (int i * 2) 3 + 2)) \<and>
     int (im_height (crop (example_page 3 5) (0, min (int i * 2) 3, 3, min (int i * 2) 3 + 2))) = 2"
  "screenshot (example_driver 3 5 2) (5 - 2) (final_path ''out'' ''x'') =
     Written (crop (example_page 3 5) (0, 3, 3, 5))"
  "0 < remaining_height 5 2"
  by (simp_all add: example_driver_def remaining_height_def)

section \<open>The properties of the specification\<close>

text \<open>
  C1. For a document height \<open>H > 0\<close> and a screenshot height \<open>S > 0\<close>, when no browser
  call raises, \<^verbatim>\<open>capture_full_page\<close> scrolls to \<open>0, S, \<dots>, (H div S - 1) * S\<close> and saves a
  full screenshot at each, then, exactly when \<open>H mod S > 0\<close>, scrolls to \<open>H - S\<close> and saves
  the final screenshot. The full part and the rest add up to \<open>H\<close>, and no offset of a full
  screenshot exceeds \<open>H - S\<close>.
\<close>

theorem slice_plan:
  assumes "page_dimensions d = Some (W, H)" and "discover_height d dir s = (None, s1)"
    and "actual_screenshot_height s1 = Some S" and "0 < H" and "0 < S"
    and "\<forall>y. \<not> scroll_raises d y" and "\<forall>y p. screenshot d y p \<noteq> ShotRaises"
  shows "num_full_scrolls H S = H div S \<and> remaining_height H S = H mod S \<and>
         driver_log (snd (capture_full_page d crf dir s)) =
           driver_log s1 @
           concat (map (\<lambda>i. [ScrollTo (int i * S), SaveScreenshot (temp_path dir crf i)])
                     [0..<nat (H div S)]) @
           (if 0 < H mod S then [ScrollTo (H - S), SaveScreenshot (final_path dir crf)] else []) \<and>
         num_full_scrolls H S * S + (H - num_full_scrolls H S * S) = H \<and>
         (\<forall>i < nat (H div S). int i * S \<le> H - S)"
proof -
  have "S \<noteq> 0" using assms(5) by simp
  from capture_log [OF assms(1-3) this assms(6,7)] plan_bound [OF assms(5)]
  show ?thesis by (simp add: num_full_scrolls_def remaining_height_def)
qed

theorem slice_plan_witness:
  "driver_log (snd (capture_full_page (example_driver 3 5 2) ''x'' ''out'' (cached_state 2))) =
     [ScrollTo 0, SaveScreenshot (temp_path ''out'' ''x'' 0),
      ScrollTo 2, SaveScreenshot (temp_path ''out'' ''x'' 1),
      ScrollTo 3, SaveScreenshot (final_path ''out'' ''x'')]"
  using slice_plan [OF example_cached(5) [of 3 5 2] example_cached(1) [of 3 5 2 "''out''"]
      example_cached(3) [of 2] _ _ example_cached(6) [of 3 5 2] example_cached(7) [of 3 5 2],
      of "''x''"]
  by (simp add: example_cached(4) upt_small)

text \<open>
  C2, as the code has it. For a document shorter than a screenshot, \<open>0 < H < S\<close>, there is
  no full slice and the remainder is \<open>H\<close>: the plan is the final slice alone, requested at
  the scroll offset \<open>H - S\<close>, and the file kept for it is the screenshot cropped to its
  bottom \<open>H\<close> rows. For \<open>H = S\<close> the plan is one full slice at offset 0, the remainder is 0
  and there is no final slice.
\<close>

theorem short_page_plan:
  assumes "page_dimensions d = Some (W, H)" and "discover_height d dir s = (None, s1)"
    and "actual_screenshot_height s1 = Some S" and "0 < H" and "H \<le> S"
    and "\<forall>y. \<not> scroll_raises d y" and "\<forall>y p. screenshot d y p \<noteq> ShotRaises"
  shows "(H < S \<longrightarrow>
            num_full_scrolls H S = 0 \<and> remaining_height H S = H \<and>
            driver_log (snd (capture_full_page d crf dir s)) =
              driver_log s1 @ [ScrollTo (H - S), SaveScreenshot (final_path dir crf)] \<and>
            (\<forall>img. screenshot d (H - S) (final_path dir crf) = Written img \<longrightarrow>
               fst (snd (try_block d crf dir W H S s1)) = [final_path dir crf] \<and>
               files (snd (snd (try_block d crf dir W H S s1))) (final_path dir crf) =
                 Some (crop img (0, int (im_height img) - H, int (im_width img),
                                 int (im_height img))))) \<and>
         (H = S \<longrightarrow>
            num_full_scrolls H S = 1 \<and> remaining_height H S = 0 \<and>
            driver_log (snd (capture_full_page d crf dir s)) =
              driver_log s1 @ [ScrollTo 0, SaveScreenshot (temp_path dir crf 0)])"
proof -
  have S: "S \<noteq> 0" using assms(4,5) by simp
  note log = capture_log [OF assms(1-3) S assms(6,7), of crf]
  have short: "num_full_scrolls H S = 0" "remaining_height H S = H" if "H < S"
    using that assms(4) by (simp_all add: num_full_scrolls_def remaining_height_def)
  have a: "driver_log (snd (capture_full_page d crf dir s)) =
      driver_log s1 @ [ScrollTo (H - S), SaveScreenshot (final_path dir crf)]" if "H < S"
    using log short [OF that] assms(4) by simp
  have b: "fst (snd (try_block d crf dir W H S s1)) = [final_path dir crf] \<and>
      files (snd (snd (try_block d crf dir W H S s1))) (final_path dir crf) =
        Some (crop img (0, int (im_height img) - H, int (im_width img), int (im_height img)))"
    if "H < S" "screenshot d (H - S) (final_path dir crf) = Written img" for img
  proof -
    from leftover_written_file [OF assms(4) _ that(2), of "[]" s1] assms(6)
    obtain s' where "leftover d crf dir H S H [] s1 = (None, [final_path dir crf], s')"
      "files s' (final_path dir crf) =
        Some (crop img (0, int (im_height img) - H, int (im_width img), int (im_height img)))"
      by auto
    then show ?thesis
      using short [OF that(1)] by (simp add: try_block_def acquire_def)
  qed
  have eq: "num_full_scrolls H S = 1" "remaining_height H S = 0" if "H = S"
    using that assms(4) by (simp_all add: num_full_scrolls_def remaining_height_def)
  have c: "driver_log (snd (capture_full_page d crf dir s)) =
      driver_log s1 @ [ScrollTo 0, SaveScreenshot (temp_path dir crf 0)]" if "H = S"
    using log eq [OF that] by (simp add: upt_small)
  from a b c short eq show ?thesis by blast
qed

theorem short_page_plan_witness:
  "driver_log (snd (capture_full_page (example_driver 3 3 4) ''x'' ''out'' (cached_state 4))) =
     [ScrollTo (- 1), SaveScreenshot (final_path ''out'' ''x'')]"
proof -
  have d: "discover_height (example_driver 3 3 4) ''out'' (cached_state 4) = (None, cached_state 4)"
    by (simp add: discover_height_def cached_state_def)
  from short_page_plan [OF example_cached(5) [of 3 3 4] d example_cached(3) [of 4] _ _
      example_cached(6) [of 3 3 4] example_cached(7) [of 3 3 4], of "''x''"]
  show ?thesis by (simp add: example_cached(4))
qed

text \<open>
  C2, as it is stated, fails. For a document of height 300 and screenshots of height 400
  the only scroll request is to the offset \<open>-100\<close>, not to 0; and for a document of height
  400 the single slice is a full one: no final screenshot is saved.
\<close>

theorem short_page_counterexample:
  "driver_log (snd (capture_full_page (example_driver 3 300 400) ''x'' ''out''
                      (cached_state 400))) =
     [ScrollTo (- 100), SaveScreenshot (final_path ''out'' ''x'')] \<and>
   ScrollTo 0 \<notin> set (driver_log (snd (capture_full_page (example_driver 3 300 400) ''x'' ''out''
                                         (cached_state 400)))) \<and>
   driver_log (snd (capture_full_page (example_driver 3 400 400) ''x'' ''out''
                      (cached_state 400))) =
     [ScrollTo 0, SaveScreenshot (temp_path ''out'' ''x'' 0)] \<and>
   SaveScreenshot (final_path ''out'' ''x'') \<notin>
     set (driver_log (snd (capture_full_page (example_driver 3 400 400) ''x'' ''out''
                             (cached_state 400))))"
proof -
  have a: "driver_log (snd (capture_full_page (example_driver 3 300 400) ''x'' ''out''
                      (cached_state 400))) =
     [ScrollTo (- 100), SaveScreenshot (final_path ''out'' ''x'')]"
    using capture_log [OF example_cached(5) [of 3 300 400] example_cached(2) [of 3 300 400 "''out''"]
        example_cached(3) [of 400] _ example_cached(6) [of 3 300 400]
        example_cached(7) [of 3 300 400], of "''x''"]
    by (simp add: example_cached(4) num_full_scrolls_def remaining_height_def)
  have b: "driver_log (snd (capture_full_page (example_driver 3 400 400) ''x'' ''out''
                      (cached_state 400))) =
     [ScrollTo 0, SaveScreenshot (temp_path ''out'' ''x'' 0)]"
    using capture_log [OF example_cached(5) [of 3 400 400] example_cached(2) [of 3 400 400 "''out''"]
        example_cached(3) [of 400] _ example_cached(6) [of 3 400 400]
        example_cached(7) [of 3 400 400], of "''x''"]
    by (simp add: example_cached(4) num_full_scrolls_def remaining_height_def upt_small)
  have "SaveScreenshot (final_path ''out'' ''x'') \<noteq> SaveScreenshot (temp_path ''out'' ''x'' 0)"
    using temp_path_not_final [of "''out''" "''x''" 0] by simp
  with a b show ?thesis by simp
qed

text \<open>
  C3. When the remainder is positive and the screenshots are taken, the full ones with the
  cached height \<open>S\<close>: the file kept for the final slice is the final screenshot cropped
  from the row \<open>crop_y = height - remainder\<close> to its bottom; it is pasted at the offset
  reached after the full slices, \<open>H - remainder\<close>, so the rows of the stitched image from
  there on are the bottom \<open>remainder\<close> rows of the final screenshot, and the rows above,
  which the full slices cover, are the rows of the full screenshots and not of the final one.
\<close>

theorem final_slice_tail:
  fixes full :: "nat \<Rightarrow> image"
  assumes "page_dimensions d = Some (W, H)" and "discover_height d dir s = (None, s1)"
    and "actual_screenshot_height s1 = Some S" and "0 < S" and "0 < H" and "0 \<le> W"
    and "0 < remaining_height H S"
    and "\<forall>y. \<not> scroll_raises d y"
    and "\<forall>i < nat (num_full_scrolls H S).
           screenshot d (int i * S) (temp_path dir crf i) = Written (full i) \<and>
           int (im_height (full i)) = S"
    and "screenshot d (H - S) (final_path dir crf) = Written fin"
  shows "\<exists>out. fst (capture_full_page d crf dir s) = Inr (Some out) \<and>
           files (snd (snd (try_block d crf dir W H S s1))) (final_path dir crf) =
             Some (crop fin (0, int (im_height fin) - remaining_height H S,
                             int (im_width fin), int (im_height fin))) \<and>
           (\<forall>x y. 0 \<le> x \<and> x < W \<and> x < int (im_width fin) \<and>
                  H - remaining_height H S \<le> y \<and> y < H \<longrightarrow>
              pixel_at out x y =
                pixel_at fin x (int (im_height fin) - remaining_height H S +
                                (y - (H - remaining_height H S)))) \<and>
           (\<forall>x y. 0 \<le> x \<and> x < W \<and> 0 \<le> y \<and> y < H - remaining_height H S \<and>
                  x < int (im_width (full (nat (y div S)))) \<longrightarrow>
              pixel_at out x y = pixel_at (full (nat (y div S))) x (y mod S))"
proof -
  let ?shots = "map (temp_path dir crf) [0..<nat (num_full_scrolls H S)] @ [final_path dir crf]"
  let ?kept = "crop fin (0, int (im_height fin) - remaining_height H S,
                         int (im_width fin), int (im_height fin))"
  have full': "\<forall>i < nat (num_full_scrolls H S).
      screenshot d (int i * S) (temp_path dir crf i) = Written (full i)"
    using assms(9) by simp
  from acquire_files [OF assms(8) full' assms(10) assms(7), of s1] obtain s2 where
    a: "acquire d crf dir H S s1 = (None, ?shots, s2)"
    and f: "\<forall>i < nat (num_full_scrolls H S). files s2 (temp_path dir crf i) = Some (full i)"
    and k: "files s2 (final_path dir crf) = Some ?kept"
    by blast
  have tb: "try_block d crf dir W H S s1 =
      (stitch (files s2) W H (remaining_height H S) ?shots, ?shots, s2)"
    using a by (simp add: try_block_def)
  have "S \<noteq> 0" using assms(4) by simp
  with tb assms(1-3) have c: "fst (capture_full_page d crf dir s) =
      stitch (files s2) W H (remaining_height H S) ?shots"
    by (simp add: capture_full_page_def)
  have "\<forall>i < nat (num_full_scrolls H S).
      files s2 (temp_path dir crf i) = Some (full i) \<and> int (im_height (full i)) = S"
    using f assms(9) by simp
  from stitched_content [OF assms(4,5,6,7) this k] c tb k show ?thesis by simp
qed

theorem final_slice_tail_witness:
  "\<exists>out. fst (capture_full_page (example_driver 3 5 2) ''x'' ''out'' (cached_state 2)) =
           Inr (Some out) \<and>
         pixel_at out 0 4 = 5 \<and> pixel_at out 0 3 = 4"
proof -
  let ?fin = "crop (example_page 3 5) (0, 3, 3, 5)"
  from final_slice_tail [OF example_cached(5) [of 3 5 2] example_cached(1) [of 3 5 2 "''out''"]
      example_cached(3) [of 2] _ _ _ example_shots(3) example_cached(6) [of 3 5 2]
      example_shots(1) example_shots(2)]
  obtain out where
    o: "fst (capture_full_page (example_driver 3 5 2) ''x'' ''out'' (cached_state 2)) =
          Inr (Some out)"
    and t: "\<forall>x y. 0 \<le> x \<and> x < 3 \<and> x < int (im_width ?fin) \<and>
                 5 - remaining_height 5 2 \<le> y \<and> y < 5 \<longrightarrow>
              pixel_at out x y =
                pixel_at ?fin x (int (im_height ?fin) - remaining_height 5 2 +
                                 (y - (5 - remaining_height 5 2)))"
    and b: "\<forall>x y. 0 \<le> x \<and> x < 3 \<and> 0 \<le> y \<and> y < 5 - remaining_height 5 2 \<and>
                 x < int (im_width (crop (example_page 3 5)
                            (0, min (int (nat (y div 2)) * 2) 3, 3,
                             min (int (nat (y div 2)) * 2) 3 + 2))) \<longrightarrow>
              pixel_at out x y =
                pixel_at (crop (example_page 3 5)
                            (0, min (int (nat (y div 2)) * 2) 3, 3,
                             min (int (nat (y div 2)) * 2) 3 + 2)) x (y mod 2)"
    by auto
  have r: "remaining_height 5 2 = 1" by (simp add: remaining_height_def)
  have "pixel_at out 0 4 = pixel_at ?fin 0 1" using t [rule_format, of 0 4] by (simp add: r)
  then have "pixel_at out 0 4 = 5"
    by (simp add: pixel_at_crop example_page_def pixel_at_raster)
  moreover have "pixel_at out 0 3 = 4"
    using b [rule_format, of 0 3]
    by (simp add: r pixel_at_crop example_page_def pixel_at_raster)
  ultimately show ?thesis using o by blast
qed

text \<open>
  C4. Whenever \<^verbatim>\<open>capture_full_page\<close> returns a stitched image, its width and its height
  are the width and the height of the document that \<^verbatim>\<open>get_page_dimensions\<close> reported.
\<close>

theorem stitched_dimensions:
  assumes "page_dimensions d = Some (W, H)"
    and "fst (capture_full_page d crf dir s) = Inr (Some img)"
  shows "int (im_width img) = W \<and> int (im_height img) = H"
  using capture_full_page_returns [OF assms(2)] assms(1) stitch_dims by fastforce

theorem stitched_dimensions_witness:
  "page_dimensions (example_driver 3 5 2) = Some (3, 5) \<and>
   fst (capture_full_page (example_driver 3 5 2) ''x'' ''out'' fresh_state) =
     Inr (Some (example_page 3 5)) \<and>
   int (im_width (example_page 3 5)) = 3 \<and> int (im_height (example_page 3 5)) = 5"
proof -
  have d: "page_dimensions (example_driver 3 5 2) = Some (3, 5)"
    by (simp add: example_driver_def)
  from stitched_dimensions [OF d example_run_5_2] d example_run_5_2 show ?thesis by simp
qed

text \<open>
  C5. If the acquisition ends without an error and with an empty list of screenshots,
  \<^verbatim>\<open>capture_full_page\<close> returns \<^verbatim>\<open>None\<close>, not an image.
\<close>

theorem no_slices_no_image:
  assumes "page_dimensions d = Some (W, H)"
    and "discover_height d dir s = (None, s1)"
    and "actual_screenshot_height s1 = Some S" and "S \<noteq> 0"
    and "acquire d crf dir H S s1 = (None, [], s2)"
  shows "capture_full_page d crf dir s = (Inr None, s2)"
  using assms by (simp add: capture_full_page_def try_block_def stitch_def)

theorem no_slices_no_image_witness:
  "fst (capture_full_page (example_driver 3 0 2) ''x'' ''out'' fresh_state) = Inr None"
proof -
  let ?d = "example_driver 3 0 2"
  let ?s1 = "snd (discover_height ?d ''out'' fresh_state)"
  let ?s2 = "snd (snd (acquire ?d ''x'' ''out'' 0 2 ?s1))"
  have d: "page_dimensions ?d = Some (3, 0)" by (simp add: example_driver_def)
  have "fst (discover_height ?d ''out'' fresh_state) = None" by code_simp
  then have h: "discover_height ?d ''out'' fresh_state = (None, ?s1)"
    by (simp add: prod_eq_iff)
  have c: "actual_screenshot_height ?s1 = Some 2" by code_simp
  have "fst (acquire ?d ''x'' ''out'' 0 2 ?s1) = None"
    "fst (snd (acquire ?d ''x'' ''out'' 0 2 ?s1)) = []" by code_simp+
  then have a: "acquire ?d ''x'' ''out'' 0 2 ?s1 = (None, [], ?s2)"
    by (simp add: prod_eq_iff)
  from no_slices_no_image [OF d h c _ a] show ?thesis by simp
qed

text \<open>
  C6. When control reaches the \<^verbatim>\<open>finally\<close> of \<^verbatim>\<open>capture_full_page\<close>, whatever the
  \<^verbatim>\<open>try\<close> returned or raised, the method ends with that result and no path of the list
  \<^verbatim>\<open>screenshots\<close> names a file any more.
\<close>

theorem cleanup_unconditional:
  assumes "page_dimensions d = Some (W, H)" and "discover_height d dir s = (None, s1)"
    and "actual_screenshot_height s1 = Some S" and "S \<noteq> 0"
    and "try_block d crf dir W H S s1 = (res, screenshots, s2)"
  shows "fst (capture_full_page d crf dir s) = res \<and>
         (\<forall>p \<in> set screenshots. files (snd (capture_full_page d crf dir s)) p = None)"
  using assms by (simp add: capture_full_page_def cleanup_files)

theorem cleanup_unconditional_witness:
  "fst (capture_full_page (failing_driver 3 5 2 2) ''x'' ''out'' fresh_state) =
     Inl WebDriverException \<and>
   files (snd (capture_full_page (failing_driver 3 5 2 2) ''x'' ''out'' fresh_state))
     (temp_path ''out'' ''x'' 0) = None"
proof -
  let ?d = "failing_driver 3 5 2 2"
  let ?s1 = "snd (discover_height ?d ''out'' fresh_state)"
  let ?t = "try_block ?d ''x'' ''out'' 3 5 2 ?s1"
  have d: "page_dimensions ?d = Some (3, 5)"
    by (simp add: failing_driver_def example_driver_def)
  have h: "discover_height ?d ''out'' fresh_state = (None, ?s1)"
    using failing_run(3) by (simp add: prod_eq_iff)
  have t: "?t = (Inl WebDriverException, [temp_path ''out'' ''x'' 0], snd (snd ?t))"
    using failing_run(1,2) by (simp add: prod_eq_iff)
  from cleanup_unconditional [OF d h failing_run(4) _ t] show ?thesis by simp
qed

text \<open>
  C7. With a document of height 1000 and screenshots of height 400 there are two full
  slices, at offsets 0 and 400, and a final slice at offset 600, the remainder being 200;
  with a document of height 800 there are the two full slices, no final slice, and the
  remainder is 0.
\<close>

theorem plan_examples:
  assumes "discover_height d dir s = (None, s1)" and "actual_screenshot_height s1 = Some 400"
    and "\<forall>y. \<not> scroll_raises d y" and "\<forall>y p. screenshot d y p \<noteq> ShotRaises"
  shows "num_full_scrolls 1000 400 = 2 \<and> remaining_height 1000 400 = 200 \<and>
         (page_dimensions d = Some (W, 1000) \<longrightarrow>
            driver_log (snd (capture_full_page d crf dir s)) =
              driver_log s1 @
              [ScrollTo 0, SaveScreenshot (temp_path dir crf 0),
               ScrollTo 400, SaveScreenshot (temp_path dir crf 1),
               ScrollTo 600, SaveScreenshot (final_path dir crf)]) \<and>
         num_full_scrolls 800 400 = 2 \<and> remaining_height 800 400 = 0 \<and>
         (page_dimensions d = Some (W, 800) \<longrightarrow>
            driver_log (snd (capture_full_page d crf dir s)) =
              driver_log s1 @
              [ScrollTo 0, SaveScreenshot (temp_path dir crf 0),
               ScrollTo 400, SaveScreenshot (temp_path dir crf 1)])"
proof -
  have n: "num_full_scrolls 1000 400 = 2" "remaining_height 1000 400 = 200"
    "num_full_scrolls 800 400 = 2" "remaining_height 800 400 = 0"
    by (simp_all add: num_full_scrolls_def remaining_height_def)
  have "driver_log (snd (capture_full_page d crf dir s)) =
      driver_log s1 @
      [ScrollTo 0, SaveScreenshot (temp_path dir crf 0),
       ScrollTo 400, SaveScreenshot (temp_path dir crf 1),
       ScrollTo 600, SaveScreenshot (final_path dir crf)]"
    if "page_dimensions d = Some (W, 1000)"
    using capture_log [OF that assms(1,2) _ assms(3,4), of crf] by (simp add: n upt_small)
  moreover have "driver_log (snd (capture_full_page d crf dir s)) =
      driver_log s1 @
      [ScrollTo 0, SaveScreenshot (temp_path dir crf 0),
       ScrollTo 400, SaveScreenshot (temp_path dir crf 1)]"
    if "page_dimensions d = Some (W, 800)"
    using capture_log [OF that assms(1,2) _ assms(3,4), of crf] by (simp add: n upt_small)
  ultimately show ?thesis using n by blast
qed

theorem plan_examples_witness:
  "driver_log (snd (capture_full_page (example_driver 3 1000 400) ''x'' ''out''
                      (cached_state 400))) =
     [ScrollTo 0, SaveScreenshot (temp_path ''out'' ''x'' 0),
      ScrollTo 400, SaveScreenshot (temp_path ''out'' ''x'' 1),
      ScrollTo 600, SaveScreenshot (final_path ''out'' ''x'')] \<and>
   driver_log (snd (capture_full_page (example_driver 3 800 400) ''x'' ''out''
                      (cached_state 400))) =
     [ScrollTo 0, SaveScreenshot (temp_path ''out'' ''x'' 0),
      ScrollTo 400, SaveScreenshot (temp_path ''out'' ''x'' 1)]"
  using plan_examples [OF example_cached(2) [of 3 1000 400 "''out''"] example_cached(3) [of 400]
      example_cached(6) [of 3 1000 400] example_cached(7) [of 3 1000 400], of 3 "''x''"]
    plan_examples [OF example_cached(2) [of 3 800 400 "''out''"] example_cached(3) [of 400]
      example_cached(6) [of 3 800 400] example_cached(7) [of 3 800 400], of 3 "''x''"]
  by (simp add: example_cached(4,5))

text \<open>
  C8. The stitched image is a function of the sequence of slice images, of the document
  size and of the remainder only: two runs of the stitching step that read the same images
  in the same order give the same bitmap, whatever the names of the files and whatever
  else is on disk.
\<close>

theorem stitch_deterministic:
  assumes "map fs1 screenshots1 = map fs2 screenshots2"
  shows "stitch fs1 W H r screenshots1 = stitch fs2 W H r screenshots2"
  using assms by (rule stitch_cong)

theorem stitch_deterministic_witness:
  "stitch [''a'' \<mapsto> example_page 1 2] 1 2 0 [''a''] =
   stitch [''b'' \<mapsto> example_page 1 2, ''c'' \<mapsto> example_page 1 1] 1 2 0 [''b'']"
  by (rule stitch_deterministic) simp

text \<open>
  C9. Once the cached height holds a screenshot height (a positive number), the discovery
  step does nothing and leaves the state as it is, and none of the screenshots that the
  call saves is the discovery screenshot; the cached value is the same after the call, and
  after any sequence of calls; and the capture runs on the cached value. When the cached
  height is unset and the discovery screenshot is written, the cache holds its height after
  the call.
\<close>

theorem height_discovered_once:
  assumes "actual_screenshot_height s = Some S" and "0 < S"
  shows "discover_height d dir s = (None, s) \<and>
         (\<exists>new. driver_log (snd (capture_full_page d crf dir s)) = driver_log s @ new \<and>
                SaveScreenshot (test_path dir) \<notin> set new) \<and>
         actual_screenshot_height (snd (capture_full_page d crf dir s)) = Some S \<and>
         actual_screenshot_height
           (foldl (\<lambda>st (d, crf, dir). snd (capture_full_page d crf dir st)) s calls) = Some S \<and>
         (\<forall>W H. page_dimensions d = Some (W, H) \<longrightarrow>
            capture_full_page d crf dir s =
              (case try_block d crf dir W H S s of
                 (res, screenshots, s2) \<Rightarrow> (res, cleanup screenshots s2))) \<and>
         (\<forall>s0 W H img.
            actual_screenshot_height s0 = None \<and> page_dimensions d = Some (W, H) \<and>
            screenshot d (scroll_y s0) (test_path dir) = Written img \<and> 0 < im_height img \<longrightarrow>
            actual_screenshot_height (snd (capture_full_page d crf dir s0)) =
              Some (int (im_height img)))"
proof -
  have "capture_full_page d crf dir s =
          (case try_block d crf dir W H S s of
             (res, screenshots, s2) \<Rightarrow> (res, cleanup screenshots s2))"
    if "page_dimensions d = Some (W, H)" for W H
    using that assms by (simp add: discover_height_cached capture_full_page_def)
  moreover have "discover_height d dir s = (None, s)"
    using assms by (simp add: discover_height_cached)
  moreover have "\<exists>new. driver_log (snd (capture_full_page d crf dir s)) = driver_log s @ new \<and>
      SaveScreenshot (test_path dir) \<notin> set new"
    using assms capture_events by simp
  moreover have "actual_screenshot_height (snd (capture_full_page d crf dir s)) = Some S"
    using assms capture_keeps_height by simp
  moreover have "actual_screenshot_height
      (foldl (\<lambda>st (d, crf, dir). snd (capture_full_page d crf dir st)) s calls) = Some S"
    using assms captures_keep_height by simp
  ultimately show ?thesis using capture_sets_height by blast
qed

theorem height_discovered_once_witness:
  "actual_screenshot_height
     (snd (capture_full_page (example_driver 3 5 2) ''x'' ''out'' fresh_state)) = Some 2 \<and>
   actual_screenshot_height
     (snd (capture_full_page (example_driver 3 7 2) ''y'' ''out''
        (snd (capture_full_page (example_driver 3 5 2) ''x'' ''out'' fresh_state)))) = Some 2"
  using height_discovered_once [OF example_first_capture, of "example_driver 3 7 2" "''out''" "''y''"]
    example_first_capture
  by simp




end
